theory Spec2Isabelle
  imports Main "HOL-Library.Multiset" "HOL-Library.Sublist" "HOL-Library.Signed_Division"
    "HOL-Library.Word"
begin

section \<open>The disk tree of lib/tree/disk: data model\<close>

text \<open>
  The Go struct \<open>Element\<close> holds the fields of one tree position and two pointers to its
  children. The scalar fields are the record \<open>Element\<close>; the pointers make the type
  recursive, so a pointer \<open>*Element\<close> is the datatype \<open>node\<close>: \<open>Null\<close> for the nil
  pointer, \<open>Node e l r\<close> for a pointer to an element with fields \<open>e\<close>, \<open>leftChild\<close> \<open>l\<close>
  and \<open>rightChild\<close> \<open>r\<close>. Every node of the Go tree is owned by exactly one parent slot
  (Insert and Delete move pointers, they never copy one), so a node is identified by the
  path of child slots that leads to it from the head.

  Go's \<open>int\<close> has 64 bits and is modelled as \<open>int\<close>. The counters of the tree and the
  indices that re-indexing assigns are bounded by the number of nodes in memory, far below
  \<open>2 ^ 63\<close>. The index helpers compute on whatever index the element holds, so their
  additions, subtractions and multiplications wrap around: \<open>wrap64\<close> is the two's
  complement reduction to 64 bits, and \<open>isInt64\<close> says that a number is a value of Go's
  \<open>int\<close>. Go's \<open>/\<close> and \<open>%\<close> truncate towards zero; they are \<open>sdiv\<close> and \<open>smod\<close>. A
  \<open>time.Time\<close> is an instant on the integer line; the zero value \<open>time.Time{}\<close> is
  \<open>zeroTime\<close>.
\<close>

type_synonym byte = "8 word"
type_synonym time = int

definition zeroTime :: time where
  "zeroTime = 0"

record Element =
  name :: string
  publicKey :: "byte list"
  leftCount :: int
  rightCount :: int
  filePath :: string
  nodeType :: string
  leafIndex :: int
  nodeIndex :: int
  lastModified :: time
  lastChecked :: time

datatype node = Null | Node Element node node

record Tree =
  rootPath :: string
  head :: node
  nextNodeIndex :: int

datatype error =
  ErrNoFilePath
  | ErrTreeIsEmpty
  | ErrElementNotFound string
  | ErrReadFailed string
  | ErrUnmarshalFailed string

subsection \<open>Index arithmetic (methods of Element)\<close>

definition NodeIndex :: "Element \<Rightarrow> int" where
  "NodeIndex e = nodeIndex e"

definition SetNodeIndex :: "Element \<Rightarrow> int \<Rightarrow> Element" where
  "SetNodeIndex e i = e\<lparr>nodeIndex := i\<rparr>"

definition isInt64 :: "int \<Rightarrow> bool" where
  "isInt64 x \<longleftrightarrow> - (2 ^ 63) \<le> x \<and> x < 2 ^ 63"

definition wrap64 :: "int \<Rightarrow> int" where
  "wrap64 x = (x + 2 ^ 63) mod 2 ^ 64 - 2 ^ 63"

definition ParentIndex :: "Element \<Rightarrow> int" where
  "ParentIndex e = (if nodeIndex e = 0 then - 1 else wrap64 (nodeIndex e - 1) sdiv 2)"

definition LeftChildIndex :: "Element \<Rightarrow> int" where
  "LeftChildIndex e = wrap64 (wrap64 (2 * nodeIndex e) + 1)"

definition RightChildIndex :: "Element \<Rightarrow> int" where
  "RightChildIndex e = wrap64 (wrap64 (2 * nodeIndex e) + 2)"

definition SiblingIndex :: "Element \<Rightarrow> int" where
  "SiblingIndex e =
     (if nodeIndex e = 0 then - 1
      else if nodeIndex e smod 2 = 1 then wrap64 (nodeIndex e + 1)
      else wrap64 (nodeIndex e - 1))"

definition IsLeftChild :: "Element \<Rightarrow> bool" where
  "IsLeftChild e \<longleftrightarrow> nodeIndex e > 0 \<and> nodeIndex e smod 2 = 1"

definition IsRightChild :: "Element \<Rightarrow> bool" where
  "IsRightChild e \<longleftrightarrow> nodeIndex e > 0 \<and> nodeIndex e smod 2 = 0"

subsection \<open>Element methods for change tracking\<close>




definition WasModifiedSince :: "Element \<Rightarrow> time \<Rightarrow> bool" where
  "WasModifiedSince e since \<longleftrightarrow> lastModified e > since"


subsection \<open>Persistence of one element\<close>

text \<open>
  \<open>saveToDisk\<close> fails when the element has no file path or when the write fails. Writes
  are taken to succeed, so \<open>saveError\<close> is the only failure. The tree operations write
  records and never read them back: they use \<open>saveError\<close> and do not carry the disk.
\<close>

definition saveError :: "Element \<Rightarrow> error option" where
  "saveError e = (if filePath e = [] then Some ErrNoFilePath else None)"

text \<open>\<open>filepath.Join(t.rootPath, name + ".json")\<close>, without the cleaning of the joined
  path that the library does.\<close>

definition generateFilePath :: "string \<Rightarrow> string \<Rightarrow> string" where
  "generateFilePath rp nm = rp @ ''/'' @ nm @ ''.json''"

text \<open>
  \<open>elementData\<close> is the serialised form of an element; the child references are the file
  paths of the children, empty for a nil child. The disk maps a file path to the text of
  the file. \<open>json.Marshal\<close> and \<open>json.Unmarshal\<close> are library code: they are the
  parameters \<open>marshal\<close> and \<open>unmarshal\<close>.
\<close>

record elementData =
  Name :: string
  PublicKey :: "byte list"
  LeftCount :: int
  RightCount :: int
  LeftChild :: string
  RightChild :: string
  NodeType :: string
  LeafIndex :: int
  LastModified :: time
  LastChecked :: time

definition childPath :: "node \<Rightarrow> string" where
  "childPath c = (case c of Null \<Rightarrow> [] | Node ce cl cr \<Rightarrow> filePath ce)"

definition toElementData :: "Element \<Rightarrow> node \<Rightarrow> node \<Rightarrow> elementData" where
  "toElementData e l r =
     \<lparr>Name = name e,
      PublicKey = publicKey e,
      LeftCount = leftCount e,
      RightCount = rightCount e,
      LeftChild = childPath l,
      RightChild = childPath r,
      NodeType = nodeType e,
      LeafIndex = leafIndex e,
      LastModified = lastModified e,
      LastChecked = lastChecked e\<rparr>"

definition saveToDisk ::
  "(elementData \<Rightarrow> 'j) \<Rightarrow> Element \<Rightarrow> node \<Rightarrow> node \<Rightarrow> (string \<Rightarrow> 'j option)
     \<Rightarrow> error + (string \<Rightarrow> 'j option)" where
  "saveToDisk marshal e l r disk =
     (case saveError e of
        Some err \<Rightarrow> Inl err
      | None \<Rightarrow> Inr (disk(filePath e \<mapsto> marshal (toElementData e l r))))"

definition fromElementData :: "elementData \<Rightarrow> string \<Rightarrow> Element" where
  "fromElementData data path =
     \<lparr>name = Name data,
      publicKey = PublicKey data,
      leftCount = LeftCount data,
      rightCount = RightCount data,
      filePath = path,
      nodeType = NodeType data,
      leafIndex = LeafIndex data,
      nodeIndex = 0,
      lastModified = LastModified data,
      lastChecked = LastChecked data\<rparr>"

text \<open>
  \<open>loadFromDisk\<close> calls itself on the child references it reads, so it returns only if
  the chain of references ends. The fuel bounds the depth of the nested calls: the result
  \<open>None\<close> says that the calls did not end within that depth, \<open>Some (Inl err)\<close> is the
  error return and \<open>Some (Inr n)\<close> the loaded element. A child whose load fails with an
  error stays nil.
\<close>

fun loadFromDisk ::
  "('j \<Rightarrow> elementData option) \<Rightarrow> nat \<Rightarrow> (string \<Rightarrow> 'j option) \<Rightarrow> string
     \<Rightarrow> (error + node) option" where
  "loadFromDisk unmarshal 0 disk path = None"
| "loadFromDisk unmarshal (Suc fuel) disk path =
     (case disk path of
        None \<Rightarrow> Some (Inl (ErrReadFailed path))
      | Some jsonData \<Rightarrow>
          (case unmarshal jsonData of
             None \<Rightarrow> Some (Inl (ErrUnmarshalFailed path))
           | Some data \<Rightarrow>
               (case (if LeftChild data \<noteq> []
                      then loadFromDisk unmarshal fuel disk (LeftChild data)
                      else Some (Inr Null)) of
                  None \<Rightarrow> None
                | Some leftRes \<Rightarrow>
                    (case (if RightChild data \<noteq> []
                           then loadFromDisk unmarshal fuel disk (RightChild data)
                           else Some (Inr Null)) of
                       None \<Rightarrow> None
                     | Some rightRes \<Rightarrow>
                         Some (Inr (Node (fromElementData data path)
                           (case leftRes of Inl err \<Rightarrow> Null | Inr c \<Rightarrow> c)
                           (case rightRes of Inl err \<Rightarrow> Null | Inr c \<Rightarrow> c)))))))"

subsection \<open>Leaves\<close>

text \<open>A method with a non-nil receiver takes the receiver as its element and its two
  child pointers.\<close>

definition IsLeaf :: "Element \<Rightarrow> node \<Rightarrow> node \<Rightarrow> bool" where
  "IsLeaf e l r \<longleftrightarrow> l = Null \<and> r = Null"

fun countLeaves :: "node \<Rightarrow> int" where
  "countLeaves Null = 0"
| "countLeaves (Node e l r) =
     (if l = Null \<and> r = Null then 1 else countLeaves l + countLeaves r)"

fun collectLeaves :: "node \<Rightarrow> node list" where
  "collectLeaves Null = []"
| "collectLeaves (Node e l r) =
     (if IsLeaf e l r then [Node e l r] else collectLeaves l @ collectLeaves r)"

definition GetLeaves :: "Tree \<Rightarrow> node list" where
  "GetLeaves t = (if head t = Null then [] else collectLeaves (head t))"

definition getNextLeafIndex :: "Tree \<Rightarrow> int" where
  "getNextLeafIndex t =
     (if head t = Null then 0
      else foldl (\<lambda>maxIndex leaf.
             case leaf of Null \<Rightarrow> maxIndex
             | Node e l r \<Rightarrow> if leafIndex e > maxIndex then leafIndex e else maxIndex)
           (- 1) (GetLeaves t) + 1)"

subsection \<open>Breadth-first loops\<close>

text \<open>
  The queue of the breadth-first loops holds non-nil pointers only; an entry is the
  element with its two child pointers. \<open>enqueue\<close> is
  \<open>if child != nil { queue = append(queue, child) }\<close>.
\<close>

fun enqueue :: "node \<Rightarrow> (Element \<times> node \<times> node) list" where
  "enqueue Null = []"
| "enqueue (Node e l r) = [(e, l, r)]"

function findLoop :: "(Element \<times> node \<times> node) list \<Rightarrow> string \<Rightarrow> node \<times> bool" where
  "findLoop [] nm = (Null, False)"
| "findLoop ((e, l, r) # queue) nm =
     (if name e = nm then (Node e l r, True)
      else findLoop (queue @ enqueue l @ enqueue r) nm)"
  by pat_completeness auto
termination
proof (relation "measure (\<lambda>(q, nm). sum_list (map (\<lambda>(e, l, r). Suc (size l + size r)) q))")
  show "wf (measure (\<lambda>(q, nm). sum_list (map (\<lambda>(e, l, r). Suc (size l + size r)) q)))"
    by simp
next
  fix e :: Element and l r :: node and queue :: "(Element \<times> node \<times> node) list" and nm :: string
  show "((queue @ enqueue l @ enqueue r, nm), (e, l, r) # queue, nm)
        \<in> measure (\<lambda>(q, nm). sum_list (map (\<lambda>(e, l, r). Suc (size l + size r)) q))"
    by (cases l; cases r) simp_all
qed

definition Find :: "Tree \<Rightarrow> string \<Rightarrow> node \<times> bool" where
  "Find t nm = (case head t of Null \<Rightarrow> (Null, False) | Node e l r \<Rightarrow> findLoop [(e, l, r)] nm)"

function indexLoop :: "(Element \<times> node \<times> node) list \<Rightarrow> int \<Rightarrow> node" where
  "indexLoop [] targetIndex = Null"
| "indexLoop ((e, l, r) # queue) targetIndex =
     (if NodeIndex e = targetIndex then Node e l r
      else indexLoop (queue @ enqueue l @ enqueue r) targetIndex)"
  by pat_completeness auto
termination
proof (relation "measure (\<lambda>(q, i). sum_list (map (\<lambda>(e, l, r). Suc (size l + size r)) q))")
  show "wf (measure (\<lambda>(q, i::int). sum_list (map (\<lambda>(e::Element, l::node, r::node). Suc (size l + size r)) q)))"
    by simp
next
  fix e :: Element and l r :: node and queue :: "(Element \<times> node \<times> node) list" and i :: int
  show "((queue @ enqueue l @ enqueue r, i), (e, l, r) # queue, i)
        \<in> measure (\<lambda>(q, i). sum_list (map (\<lambda>(e, l, r). Suc (size l + size r)) q))"
    by (cases l; cases r) simp_all
qed

definition GetNodeByIndex :: "Tree \<Rightarrow> int \<Rightarrow> node" where
  "GetNodeByIndex t targetIndex =
     (case head t of Null \<Rightarrow> Null | Node e l r \<Rightarrow> indexLoop [(e, l, r)] targetIndex)"

subsection \<open>Re-indexing\<close>

text \<open>
  \<open>reassignNodeIndices\<close> walks the same queue and writes the running index into each
  node it takes off. The write goes through the pointer; in the model the pointer is the
  path from the head, which the queue entry carries, and \<open>setIndexAt\<close> is the write.
\<close>

datatype dir = GoLeft | GoRight

fun setIndexAt :: "dir list \<Rightarrow> int \<Rightarrow> node \<Rightarrow> node" where
  "setIndexAt p i Null = Null"
| "setIndexAt [] i (Node e l r) = Node (SetNodeIndex e i) l r"
| "setIndexAt (GoLeft # p) i (Node e l r) = Node e (setIndexAt p i l) r"
| "setIndexAt (GoRight # p) i (Node e l r) = Node e l (setIndexAt p i r)"

fun enqueueAt :: "dir list \<Rightarrow> node \<Rightarrow> (dir list \<times> Element \<times> node \<times> node) list" where
  "enqueueAt p Null = []"
| "enqueueAt p (Node e l r) = [(p, e, l, r)]"

function assignLoop ::
  "(dir list \<times> Element \<times> node \<times> node) list \<Rightarrow> int \<Rightarrow> node \<Rightarrow> node \<times> int" where
  "assignLoop [] index t = (t, index)"
| "assignLoop ((p, e, l, r) # queue) index t =
     assignLoop (queue @ enqueueAt (p @ [GoLeft]) l @ enqueueAt (p @ [GoRight]) r)
       (index + 1) (setIndexAt p index t)"
  by pat_completeness auto
termination
proof (relation "measure (\<lambda>(q, i, t). sum_list (map (\<lambda>(p, e, l, r). Suc (size l + size r)) q))")
  show "wf (measure (\<lambda>(q, i::int, t::node).
          sum_list (map (\<lambda>(p::dir list, e::Element, l::node, r::node). Suc (size l + size r)) q)))"
    by simp
next
  fix p :: "dir list" and e :: Element and l r t :: node
    and queue :: "(dir list \<times> Element \<times> node \<times> node) list" and index :: int
  show "((queue @ enqueueAt (p @ [GoLeft]) l @ enqueueAt (p @ [GoRight]) r, index + 1,
          setIndexAt p index t), (p, e, l, r) # queue, index, t)
        \<in> measure (\<lambda>(q, i, t). sum_list (map (\<lambda>(p, e, l, r). Suc (size l + size r)) q))"
    by (cases l; cases r) simp_all
qed

definition reassignNodeIndices :: "Tree \<Rightarrow> Tree" where
  "reassignNodeIndices t =
     (case head t of
        Null \<Rightarrow> t
      | Node e l r \<Rightarrow>
          (case assignLoop [([], e, l, r)] 0 (head t) of
             (h, index) \<Rightarrow> t\<lparr>head := h, nextNodeIndex := index\<rparr>))"

subsection \<open>Insert\<close>

text \<open>
  \<open>insertToLeaf\<close> is the closure of \<open>Insert\<close>. It reads the tree's root path and its
  \<open>nextNodeIndex\<close> counter, which is threaded as \<open>nxt\<close>; \<open>now\<close> is the reading of
  \<open>time.Now()\<close> for the intermediate node. The receiver \<open>*nodePtr\<close> is never nil. On a
  failed save the Go code returns the error and leaves the tree as far as it got; the
  model returns the error alone. \<open>Insert\<close> increments \<open>t.nextNodeIndex\<close> once before
  the walk, so the closure starts from \<open>nextNodeIndex t + 1\<close>.
\<close>

definition saveAndReturn :: "Element \<Rightarrow> node \<Rightarrow> node \<Rightarrow> int \<Rightarrow> error + (node \<times> int)" where
  "saveAndReturn current l r nxt =
     (case saveError current of Some err \<Rightarrow> Inl err | None \<Rightarrow> Inr (Node current l r, nxt))"

text \<open>The element literal for the intermediate node that takes the place of a leaf.\<close>

definition intermediateNode :: "string \<Rightarrow> time \<Rightarrow> Element \<Rightarrow> Element \<Rightarrow> int \<Rightarrow> Element" where
  "intermediateNode rp now current newNode nxt =
     \<lparr>name = ''intermediate_'' @ name current @ ''_'' @ name newNode,
      publicKey = [],
      leftCount = 1,
      rightCount = 1,
      filePath = generateFilePath rp (''intermediate_'' @ name current @ ''_'' @ name newNode),
      nodeType = ''intermediate'',
      leafIndex = 0,
      nodeIndex = nxt,
      lastModified = now,
      lastChecked = zeroTime\<rparr>"

function insertToLeaf ::
  "string \<Rightarrow> time \<Rightarrow> Element \<Rightarrow> node \<Rightarrow> node \<Rightarrow> Element \<Rightarrow> int \<Rightarrow> error + (node \<times> int)" where
  "insertToLeaf rp now current l r newNode nxt =
     (if l = Null \<and> r = Null then
        (case saveError (intermediateNode rp now current newNode nxt) of
           Some err \<Rightarrow> Inl err
         | None \<Rightarrow> Inr (Node (intermediateNode rp now current newNode nxt)
                          (Node current l r) (Node newNode Null Null),
                        nxt + 1))
      else if countLeaves l \<le> countLeaves r then
        (case l of
           Null \<Rightarrow> saveAndReturn (current\<lparr>leftCount := 1\<rparr>) (Node newNode Null Null) r nxt
         | Node le ll lr \<Rightarrow>
             (case insertToLeaf rp now le ll lr newNode nxt of
                Inl err \<Rightarrow> Inl err
              | Inr (l', nxt') \<Rightarrow>
                  saveAndReturn (current\<lparr>leftCount := leftCount current + 1\<rparr>) l' r nxt'))
      else
        (case r of
           Null \<Rightarrow> saveAndReturn (current\<lparr>rightCount := 1\<rparr>) l (Node newNode Null Null) nxt
         | Node re rl rr \<Rightarrow>
             (case insertToLeaf rp now re rl rr newNode nxt of
                Inl err \<Rightarrow> Inl err
              | Inr (r', nxt') \<Rightarrow>
                  saveAndReturn (current\<lparr>rightCount := rightCount current + 1\<rparr>) l r' nxt')))"
  by pat_completeness auto
termination
  by (relation "measure (\<lambda>(rp, now, current, l, r, newNode, nxt). size l + size r)") auto

declare insertToLeaf.simps [simp del]

text \<open>The element literal for the new leaf. \<open>now1\<close> and \<open>now2\<close> are the readings of
  \<open>time.Now()\<close> for the new leaf and for the intermediate node.\<close>

definition newElement :: "Tree \<Rightarrow> string \<Rightarrow> byte list \<Rightarrow> time \<Rightarrow> Element" where
  "newElement t nm v now1 =
     \<lparr>name = nm,
      publicKey = v,
      leftCount = 0,
      rightCount = 0,
      filePath = generateFilePath (rootPath t) nm,
      nodeType = ''leaf'',
      leafIndex = getNextLeafIndex t,
      nodeIndex = nextNodeIndex t,
      lastModified = now1,
      lastChecked = zeroTime\<rparr>"

definition Insert :: "Tree \<Rightarrow> string \<Rightarrow> byte list \<Rightarrow> time \<Rightarrow> time \<Rightarrow> error + Tree" where
  "Insert t nm v now1 now2 =
     (case saveError (newElement t nm v now1) of
        Some err \<Rightarrow> Inl err
      | None \<Rightarrow>
          (case head t of
             Null \<Rightarrow> Inr (t\<lparr>head := Node (SetNodeIndex (newElement t nm v now1) 0) Null Null,
                            nextNodeIndex := 1\<rparr>)
           | Node e l r \<Rightarrow>
               (case insertToLeaf (rootPath t) now2 e l r (newElement t nm v now1)
                       (nextNodeIndex t + 1) of
                  Inl err \<Rightarrow> Inl err
                | Inr (h, nxt) \<Rightarrow>
                    Inr (reassignNodeIndices (t\<lparr>head := h, nextNodeIndex := nxt\<rparr>)))))"

subsection \<open>Delete\<close>

fun collectLeafNames :: "node \<Rightarrow> string list" where
  "collectLeafNames Null = []"
| "collectLeafNames (Node e l r) =
     (if nodeType e = ''leaf'' then [name e]
      else collectLeafNames l @ collectLeafNames r)"

fun updateNames :: "string \<Rightarrow> node \<Rightarrow> node" where
  "updateNames rp Null = Null"
| "updateNames rp (Node e l r) =
     (let l' = updateNames rp l;
          r' = updateNames rp r
      in if nodeType e = ''intermediate'' then
           (let leftLeafNames = (if l' \<noteq> Null then collectLeafNames l' else []);
                rightLeafNames = (if r' \<noteq> Null then collectLeafNames r' else [])
            in if length leftLeafNames > 0 \<and> length rightLeafNames > 0 then
                 (let newName = ''intermediate_'' @ hd leftLeafNames @ ''_'' @ hd rightLeafNames
                  in Node (e\<lparr>name := newName, filePath := generateFilePath rp newName\<rparr>) l' r')
               else Node e l' r')
         else Node e l' r')"

definition renameIntermediateNodes :: "Tree \<Rightarrow> Tree" where
  "renameIntermediateNodes t =
     (if head t = Null then t else t\<lparr>head := updateNames (rootPath t) (head t)\<rparr>)"

text \<open>
  The splice of a node with two children: \<open>current\<close> runs down the right spine of the
  left child, the right subtree is hung below it and its \<open>rightCount\<close> is set to \<open>c\<close>.
\<close>

fun attachRightmost ::
  "Element \<Rightarrow> node \<Rightarrow> node \<Rightarrow> node \<Rightarrow> int \<Rightarrow> Element \<times> node \<times> node" where
  "attachRightmost e l r rightSub c =
     (case r of
        Null \<Rightarrow> (e\<lparr>rightCount := c\<rparr>, l, rightSub)
      | Node re rl rr \<Rightarrow>
          (case attachRightmost re rl rr rightSub c of
             (re', rl', rr') \<Rightarrow> (e, l, Node re' rl' rr')))"

declare attachRightmost.simps [simp del]

text \<open>
  \<open>deleteNode\<close> returns the replacement pointer and \<open>found\<close>; its error result is always
  nil. After \<open>current.rightCount\<close> is set, \<open>left.rightCount\<close> is read again and increased
  by \<open>current.rightCount\<close>; when \<open>current\<close> is \<open>left\<close> itself the value read is the one
  just written.
\<close>

fun deleteNode :: "node \<Rightarrow> string \<Rightarrow> node \<times> bool" where
  "deleteNode Null targetName = (Null, False)"
| "deleteNode (Node e l r) targetName =
     (if name e = targetName then
        (case l of
           Null \<Rightarrow> (if r = Null then (Null, True) else (r, True))
         | Node le ll lr \<Rightarrow>
             (case r of
                Null \<Rightarrow> (l, True)
              | Node re rl rr \<Rightarrow>
                  (let c = leftCount re + rightCount re + 1
                   in case attachRightmost le ll lr r c of
                        (le', ll', lr') \<Rightarrow>
                          (Node (le'\<lparr>rightCount := rightCount le' + c\<rparr>) ll' lr', True))))
      else
        (case (if l \<noteq> Null then deleteNode l targetName else (l, False)) of
           (l', foundL) \<Rightarrow>
             if foundL then (Node (e\<lparr>leftCount := leftCount e - 1\<rparr>) l' r, True)
             else
               (case (if r \<noteq> Null then deleteNode r targetName else (r, False)) of
                  (r', foundR) \<Rightarrow>
                    if foundR then (Node (e\<lparr>rightCount := rightCount e - 1\<rparr>) l' r', True)
                    else (Node e l' r', False))))"

definition Delete :: "Tree \<Rightarrow> string \<Rightarrow> error + Tree" where
  "Delete t nm =
     (if head t = Null then Inl ErrTreeIsEmpty
      else case deleteNode (head t) nm of
             (newHead, found) \<Rightarrow>
               if \<not> found then Inl (ErrElementNotFound nm)
               else Inr (reassignNodeIndices (renameIntermediateNodes (t\<lparr>head := newHead\<rparr>))))"

subsection \<open>Change tracking on the tree\<close>





definition NewTree :: "string \<Rightarrow> Tree" where
  "NewTree rp = \<lparr>rootPath = rp, head = Null, nextNodeIndex = 0\<rparr>"


section \<open>Vocabulary for the properties\<close>

text \<open>
  \<open>elems\<close> lists the elements of a tree in pre-order, \<open>subtrees\<close> its non-nil pointers.
  \<open>sub p t\<close> follows the path \<open>p\<close> from \<open>t\<close> (\<open>Null\<close> when the path leaves the tree).
  \<open>bfsOrder\<close> lists the elements in level order, left before right, by the queue
  discipline of the breadth-first loops; \<open>bfsPaths\<close> lists the paths of the nodes in
  the same order.
\<close>

fun elems :: "node \<Rightarrow> Element list" where
  "elems Null = []"
| "elems (Node e l r) = e # elems l @ elems r"

fun subtrees :: "node \<Rightarrow> node list" where
  "subtrees Null = []"
| "subtrees (Node e l r) = Node e l r # subtrees l @ subtrees r"

fun childless :: "node \<Rightarrow> bool" where
  "childless Null = False"
| "childless (Node e l r) = (l = Null \<and> r = Null)"

text \<open>The names of the nodes whose kind is leaf, and the projection of an element to
  its name and kind.\<close>

definition leafNames :: "node \<Rightarrow> string list" where
  "leafNames t = map name (filter (\<lambda>e. nodeType e = ''leaf'') (elems t))"

definition nameKind :: "Element \<Rightarrow> string \<times> string" where
  "nameKind e = (name e, nodeType e)"

definition nodeCount :: "node \<Rightarrow> nat" where
  "nodeCount t = length (elems t)"

fun elemOf :: "node \<Rightarrow> Element option" where
  "elemOf Null = None"
| "elemOf (Node e l r) = Some e"

fun sub :: "dir list \<Rightarrow> node \<Rightarrow> node" where
  "sub [] t = t"
| "sub (d # p) Null = Null"
| "sub (GoLeft # p) (Node e l r) = sub p l"
| "sub (GoRight # p) (Node e l r) = sub p r"

function bfsLoop :: "(Element \<times> node \<times> node) list \<Rightarrow> Element list" where
  "bfsLoop [] = []"
| "bfsLoop ((e, l, r) # queue) = e # bfsLoop (queue @ enqueue l @ enqueue r)"
  by pat_completeness auto
termination
proof (relation "measure (\<lambda>q. sum_list (map (\<lambda>(e, l, r). Suc (size l + size r)) q))")
  show "wf (measure (\<lambda>q. sum_list (map (\<lambda>(e::Element, l::node, r::node). Suc (size l + size r)) q)))"
    by simp
next
  fix e :: Element and l r :: node and queue :: "(Element \<times> node \<times> node) list"
  show "(queue @ enqueue l @ enqueue r, (e, l, r) # queue)
        \<in> measure (\<lambda>q. sum_list (map (\<lambda>(e, l, r). Suc (size l + size r)) q))"
    by (cases l; cases r) simp_all
qed

definition bfsOrder :: "node \<Rightarrow> Element list" where
  "bfsOrder t = bfsLoop (enqueue t)"

function bfsPaths :: "(dir list \<times> Element \<times> node \<times> node) list \<Rightarrow> dir list list" where
  "bfsPaths [] = []"
| "bfsPaths ((p, e, l, r) # queue) =
     p # bfsPaths (queue @ enqueueAt (p @ [GoLeft]) l @ enqueueAt (p @ [GoRight]) r)"
  by pat_completeness auto
termination
proof (relation "measure (\<lambda>q. sum_list (map (\<lambda>(p, e, l, r). Suc (size l + size r)) q))")
  show "wf (measure (\<lambda>q. sum_list
          (map (\<lambda>(p::dir list, e::Element, l::node, r::node). Suc (size l + size r)) q)))"
    by simp
next
  fix p :: "dir list" and e :: Element and l r :: node
    and queue :: "(dir list \<times> Element \<times> node \<times> node) list"
  show "(queue @ enqueueAt (p @ [GoLeft]) l @ enqueueAt (p @ [GoRight]) r, (p, e, l, r) # queue)
        \<in> measure (\<lambda>q. sum_list (map (\<lambda>(p, e, l, r). Suc (size l + size r)) q))"
    by (cases l; cases r) simp_all
qed

text \<open>\<open>stripIdx\<close> forgets the indices: two trees with the same \<open>stripIdx\<close> differ in
  their \<open>nodeIndex\<close> fields only.\<close>

fun stripIdx :: "node \<Rightarrow> node" where
  "stripIdx Null = Null"
| "stripIdx (Node e l r) = Node (e\<lparr>nodeIndex := 0\<rparr>) (stripIdx l) (stripIdx r)"

fun assignAll :: "dir list list \<Rightarrow> int \<Rightarrow> node \<Rightarrow> node" where
  "assignAll [] i t = t"
| "assignAll (p # ps) i t = assignAll ps (i + 1) (setIndexAt p i t)"

text \<open>
  The insertion walk as the specification words it: from a node with children go to the
  child with fewer leaves, left on a tie; stop at a node without children, or at an empty
  child slot. \<open>put p s t\<close> replaces the subtree of \<open>t\<close> at path \<open>p\<close> by \<open>s\<close>. \<open>graft\<close> is
  what Insert leaves at the end of the walk: at an empty slot the new leaf, at a node the
  new intermediate node over that node and the new leaf. \<open>skeleton\<close> forgets the cached
  counts and the indices. \<open>twoOrNone\<close> holds when every node has two children or none.
\<close>

fun walk :: "node \<Rightarrow> dir list" where
  "walk Null = []"
| "walk (Node e l r) =
     (if l = Null \<and> r = Null then []
      else if countLeaves l \<le> countLeaves r then GoLeft # walk l
      else GoRight # walk r)"

fun put :: "dir list \<Rightarrow> node \<Rightarrow> node \<Rightarrow> node" where
  "put [] s t = s"
| "put (d # p) s Null = Null"
| "put (GoLeft # p) s (Node e l r) = Node e (put p s l) r"
| "put (GoRight # p) s (Node e l r) = Node e l (put p s r)"

definition graft :: "string \<Rightarrow> time \<Rightarrow> Element \<Rightarrow> node \<Rightarrow> node" where
  "graft rp now newNode s =
     (case s of
        Null \<Rightarrow> Node newNode Null Null
      | Node e l r \<Rightarrow> Node (intermediateNode rp now e newNode 0) (Node e l r) (Node newNode Null Null))"

fun skeleton :: "node \<Rightarrow> node" where
  "skeleton Null = Null"
| "skeleton (Node e l r) =
     Node (e\<lparr>leftCount := 0, rightCount := 0, nodeIndex := 0\<rparr>) (skeleton l) (skeleton r)"

text \<open>\<open>hasPath\<close>: every element of the tree has a file path, as every element that
  Insert, Delete or \<open>loadFromDisk\<close> makes does; then no save of the tree's elements fails.\<close>

definition hasPath :: "node \<Rightarrow> bool" where
  "hasPath t \<longleftrightarrow> (\<forall>e \<in> set (elems t). filePath e \<noteq> [])"

fun twoOrNone :: "node \<Rightarrow> bool" where
  "twoOrNone Null = True"
| "twoOrNone (Node e l r) = ((l = Null \<longleftrightarrow> r = Null) \<and> twoOrNone l \<and> twoOrNone r)"


fun updateAt :: "dir list \<Rightarrow> (Element \<Rightarrow> Element) \<Rightarrow> node \<Rightarrow> node" where
  "updateAt p f Null = Null"
| "updateAt [] f (Node e l r) = Node (f e) l r"
| "updateAt (GoLeft # p) f (Node e l r) = Node e (updateAt p f l) r"
| "updateAt (GoRight # p) f (Node e l r) = Node e l (updateAt p f r)"

definition diskOf :: "error + (string \<Rightarrow> 'j option) \<Rightarrow> (string \<Rightarrow> 'j option)" where
  "diskOf res = (case res of Inl err \<Rightarrow> Map.empty | Inr d \<Rightarrow> d)"

text \<open>
  A sequence of operations on a tree. \<open>run\<close> applies them in order and stops at the
  first error; the clock readings handed to \<open>Insert\<close> increase along the run.
\<close>

datatype op = OpInsert string "byte list" | OpDelete string

fun run :: "Tree \<Rightarrow> time \<Rightarrow> op list \<Rightarrow> error + Tree" where
  "run t now [] = Inr t"
| "run t now (OpInsert nm v # ops) =
     (case Insert t nm v now (now + 1) of
        Inl err \<Rightarrow> Inl err
      | Inr t' \<Rightarrow> run t' (now + 2) ops)"
| "run t now (OpDelete nm # ops) =
     (case Delete t nm of
        Inl err \<Rightarrow> Inl err
      | Inr t' \<Rightarrow> run t' now ops)"

text \<open>The zero value \<open>Element{}\<close>, to carry an index through \<open>SetNodeIndex\<close>.\<close>

definition zeroElement :: Element where
  "zeroElement =
     \<lparr>name = [], publicKey = [], leftCount = 0, rightCount = 0, filePath = [],
      nodeType = [], leafIndex = 0, nodeIndex = 0, lastModified = zeroTime,
      lastChecked = zeroTime\<rparr>"

definition succeeded :: "error + Tree \<Rightarrow> bool" where
  "succeeded res = (case res of Inl err \<Rightarrow> False | Inr t \<Rightarrow> True)"

definition treeOf :: "error + Tree \<Rightarrow> Tree" where
  "treeOf res = (case res of Inl err \<Rightarrow> NewTree [] | Inr t \<Rightarrow> t)"


section \<open>Index arithmetic\<close>

lemma smod_two_nonneg: "0 \<le> (k::int) \<Longrightarrow> k smod 2 = k mod 2"
  by (simp add: signed_modulo_int_def sgn_if)

lemma sdiv_two_nonneg: "0 \<le> (k::int) \<Longrightarrow> k sdiv 2 = k div 2"
  by (simp add: signed_divide_int_def sgn_if)

lemma wrap64_id: "isInt64 x \<Longrightarrow> wrap64 x = x"
  by (simp add: wrap64_def isInt64_def)

lemma wrap64_add_left: "wrap64 (wrap64 a + b) = wrap64 (a + b)"
proof -
  have "wrap64 a + b + 2 ^ 63 = (a + 2 ^ 63) mod 2 ^ 64 + b"
    by (simp add: wrap64_def)
  then have "(wrap64 a + b + 2 ^ 63) mod 2 ^ 64 = ((a + 2 ^ 63) mod 2 ^ 64 + b) mod 2 ^ 64"
    by (rule arg_cong)
  also have "\<dots> = (a + 2 ^ 63 + b) mod 2 ^ 64"
    by (rule mod_add_left_eq)
  also have "\<dots> = (a + b + 2 ^ 63) mod 2 ^ 64"
    by (simp add: algebra_simps)
  finally have "(wrap64 a + b + 2 ^ 63) mod 2 ^ 64 = (a + b + 2 ^ 63) mod 2 ^ 64" .
  then show ?thesis
    unfolding wrap64_def[of "wrap64 a + b"] wrap64_def[of "a + b"] by (rule arg_cong)
qed

text \<open>
  Claim C7, amended. The index helpers are functions of the node's index \<open>n\<close> alone; no
  tree is among their arguments. For every 64-bit index value \<open>n\<close>: \<open>IsLeftChild\<close> holds
  iff \<open>n\<close> is odd and positive, \<open>IsRightChild\<close> iff \<open>n\<close> is even and positive; the left child
  index is \<open>2n + 1\<close> whenever \<open>2n + 1\<close> is a 64-bit value, and the right child index is
  \<open>2n + 2\<close> whenever \<open>2n + 2\<close> is one; for \<open>0 \<le> n\<close> the parent index is \<open>(n - 1) / 2\<close>, with
  the sentinel \<open>-1\<close> at \<open>n = 0\<close>; for \<open>0 \<le> n\<close> with \<open>n + 1\<close> a 64-bit value the sibling index
  is \<open>n + 1\<close> for odd \<open>n\<close> and \<open>n - 1\<close> for even \<open>n\<close>, with the sentinel \<open>-1\<close> at \<open>n = 0\<close>.
\<close>

theorem index_helpers_arithmetic:
  assumes "isInt64 (nodeIndex e)"
  shows "(isInt64 (2 * nodeIndex e + 1) \<longrightarrow> LeftChildIndex e = 2 * nodeIndex e + 1)
   \<and> (isInt64 (2 * nodeIndex e + 2) \<longrightarrow> RightChildIndex e = 2 * nodeIndex e + 2)
   \<and> (IsLeftChild e \<longleftrightarrow> odd (nodeIndex e) \<and> nodeIndex e > 0)
   \<and> (IsRightChild e \<longleftrightarrow> even (nodeIndex e) \<and> nodeIndex e > 0)
   \<and> (0 \<le> nodeIndex e \<longrightarrow>
         ParentIndex e = (if nodeIndex e = 0 then - 1 else (nodeIndex e - 1) div 2))
   \<and> (0 \<le> nodeIndex e \<and> isInt64 (nodeIndex e + 1) \<longrightarrow>
         SiblingIndex e =
           (if nodeIndex e = 0 then - 1
            else if odd (nodeIndex e) then nodeIndex e + 1 else nodeIndex e - 1))"
proof -
  have m: "nodeIndex e smod 2 = nodeIndex e mod 2" if "0 \<le> nodeIndex e"
    using that by (rule smod_two_nonneg)
  have lc: "LeftChildIndex e = 2 * nodeIndex e + 1" if "isInt64 (2 * nodeIndex e + 1)"
    using that by (simp add: LeftChildIndex_def wrap64_add_left wrap64_id)
  have rc: "RightChildIndex e = 2 * nodeIndex e + 2" if "isInt64 (2 * nodeIndex e + 2)"
    using that by (simp add: RightChildIndex_def wrap64_add_left wrap64_id)
  have pred: "wrap64 (nodeIndex e - 1) = nodeIndex e - 1" if "0 \<le> nodeIndex e"
    using that assms by (intro wrap64_id) (simp add: isInt64_def)
  have d: "(nodeIndex e - 1) sdiv 2 = (nodeIndex e - 1) div 2" if "0 < nodeIndex e"
    using that by (intro sdiv_two_nonneg) simp
  have p: "ParentIndex e = (if nodeIndex e = 0 then - 1 else (nodeIndex e - 1) div 2)"
    if "0 \<le> nodeIndex e"
    using that d pred by (simp add: ParentIndex_def)
  have s: "SiblingIndex e =
           (if nodeIndex e = 0 then - 1
            else if odd (nodeIndex e) then nodeIndex e + 1 else nodeIndex e - 1)"
    if "0 \<le> nodeIndex e \<and> isInt64 (nodeIndex e + 1)"
    using that m pred by (simp add: SiblingIndex_def odd_iff_mod_2_eq_one wrap64_id)
  have l: "IsLeftChild e \<longleftrightarrow> odd (nodeIndex e) \<and> nodeIndex e > 0"
    using m by (auto simp: IsLeftChild_def odd_iff_mod_2_eq_one)
  have r: "IsRightChild e \<longleftrightarrow> even (nodeIndex e) \<and> nodeIndex e > 0"
    using m by (auto simp: IsRightChild_def even_iff_mod_2_eq_zero)
  show ?thesis
    using lc rc p s l r by blast
qed

theorem index_helpers_arithmetic_witness:
  "isInt64 (nodeIndex (SetNodeIndex zeroElement 5))
   \<and> isInt64 (2 * nodeIndex (SetNodeIndex zeroElement 5) + 1)
   \<and> isInt64 (2 * nodeIndex (SetNodeIndex zeroElement 5) + 2)
   \<and> 0 \<le> nodeIndex (SetNodeIndex zeroElement 5)
   \<and> isInt64 (nodeIndex (SetNodeIndex zeroElement 5) + 1)
   \<and> LeftChildIndex (SetNodeIndex zeroElement 5) = 11
   \<and> RightChildIndex (SetNodeIndex zeroElement 5) = 12
   \<and> ParentIndex (SetNodeIndex zeroElement 5) = 2
   \<and> SiblingIndex (SetNodeIndex zeroElement 5) = 6
   \<and> IsLeftChild (SetNodeIndex zeroElement 5)
   \<and> \<not> IsRightChild (SetNodeIndex zeroElement 5)"
proof -
  have n: "nodeIndex (SetNodeIndex zeroElement 5) = 5"
    by (simp add: SetNodeIndex_def)
  have h: "isInt64 (nodeIndex (SetNodeIndex zeroElement 5))"
    by (simp add: n isInt64_def)
  show ?thesis
    using index_helpers_arithmetic[OF h] by (simp add: n isInt64_def)
qed

text \<open>
  The claim as stated gives the formulas for every index value. Go's \<open>int\<close> wraps around:
  at the largest value \<open>2 ^ 63 - 1\<close> the left child index is \<open>-1\<close> and the sibling index is
  the smallest value \<open>- (2 ^ 63)\<close>; at \<open>2 ^ 62\<close> the right child index is negative. Go's
  \<open>%\<close> gives \<open>-1\<close> for a negative odd number, so the sibling index of \<open>-3\<close> is \<open>-4\<close> and not
  \<open>-2\<close>.
\<close>

theorem index_helpers_wrap_around:
  "LeftChildIndex (SetNodeIndex zeroElement 9223372036854775807) = - 1
   \<and> RightChildIndex (SetNodeIndex zeroElement 4611686018427387904) = - 9223372036854775806
   \<and> SiblingIndex (SetNodeIndex zeroElement 9223372036854775807) = - 9223372036854775808
   \<and> odd (- 3 :: int)
   \<and> SiblingIndex (SetNodeIndex zeroElement (- 3)) = - 4"
  by (simp add: LeftChildIndex_def RightChildIndex_def SiblingIndex_def SetNodeIndex_def
      wrap64_def signed_modulo_int_def)

section \<open>Re-indexing labels the tree in level order\<close>

text \<open>
  The loop of \<open>reassignNodeIndices\<close> writes \<open>index, index + 1, \<dots>\<close> at the paths that
  \<open>bfsPaths\<close> lists (\<open>assignLoop_eq\<close>). These paths are pairwise distinct, a write at one
  path leaves the elements at all other paths alone, and the elements found at these
  paths are the elements of the tree in level order.
\<close>

lemma sub_append: "sub (p @ q) t = sub q (sub p t)"
  by (induction p t rule: sub.induct) (auto, (metis sub.simps(1,2) list.exhaust)?)

lemma sub_Null [simp]: "sub p Null = Null"
  by (cases p) auto

lemma stripIdx_setIndexAt [simp]: "stripIdx (setIndexAt p i t) = stripIdx t"
  by (induction p i t rule: setIndexAt.induct) (auto simp: SetNodeIndex_def)

lemma stripIdx_assignAll [simp]: "stripIdx (assignAll ps i t) = stripIdx t"
  by (induction ps i t rule: assignAll.induct) auto

lemma sub_Cons_Node: "sub (d # p) (Node e l r) = (case d of GoLeft \<Rightarrow> sub p l | GoRight \<Rightarrow> sub p r)"
  by (cases d) auto

lemma elemOf_sub_setIndexAt:
  "elemOf (sub w (setIndexAt p i t)) =
     (if w = p then map_option (\<lambda>e. e\<lparr>nodeIndex := i\<rparr>) (elemOf (sub w t)) else elemOf (sub w t))"
proof (induction p i t arbitrary: w rule: setIndexAt.induct)
  case (1 p i)
  then show ?case by simp
next
  case (2 i e l r)
  then show ?case by (cases w) (auto simp: SetNodeIndex_def sub_Cons_Node split: dir.splits)
next
  case (3 p i e l r)
  then show ?case by (cases w) (auto simp: sub_Cons_Node split: dir.splits)
next
  case (4 p i e l r)
  then show ?case by (cases w) (auto simp: sub_Cons_Node split: dir.splits)
qed

lemma elemOf_sub_assignAll_other:
  "w \<notin> set ps \<Longrightarrow> elemOf (sub w (assignAll ps i t)) = elemOf (sub w t)"
  by (induction ps i t rule: assignAll.induct) (auto simp: elemOf_sub_setIndexAt)

lemma elemOf_sub_assignAll_nth:
  "distinct ps \<Longrightarrow> j < length ps \<Longrightarrow>
   elemOf (sub (ps ! j) (assignAll ps i t)) =
     map_option (\<lambda>e. e\<lparr>nodeIndex := i + int j\<rparr>) (elemOf (sub (ps ! j) t))"
proof (induction ps i t arbitrary: j rule: assignAll.induct)
  case (1 i t)
  then show ?case by simp
next
  case (2 p ps i t)
  show ?case
  proof (cases j)
    case 0
    then show ?thesis
      using "2.prems" by (simp add: elemOf_sub_assignAll_other elemOf_sub_setIndexAt)
  next
    case (Suc k)
    then have "ps ! k \<noteq> p" using "2.prems" by auto
    then show ?thesis
      using Suc "2.prems" "2.IH"[of k] by (simp add: elemOf_sub_setIndexAt algebra_simps)
  qed
qed

lemma bfsPaths_prefix:
  "w \<in> set (bfsPaths q) \<Longrightarrow> \<exists>x \<in> set q. prefix (fst x) w"
proof (induction q arbitrary: w rule: bfsPaths.induct)
  case 1
  then show ?case by simp
next
  case (2 p e l r queue)
  show ?case
  proof (cases "w = p")
    case True
    then show ?thesis by auto
  next
    case False
    then have "w \<in> set (bfsPaths (queue @ enqueueAt (p @ [GoLeft]) l @ enqueueAt (p @ [GoRight]) r))"
      using "2.prems" by simp
    from "2.IH"[OF this] obtain x where
      x: "x \<in> set (queue @ enqueueAt (p @ [GoLeft]) l @ enqueueAt (p @ [GoRight]) r)" "prefix (fst x) w"
      by blast
    then consider "x \<in> set queue" | "x \<in> set (enqueueAt (p @ [GoLeft]) l)" | "x \<in> set (enqueueAt (p @ [GoRight]) r)"
      by auto
    then show ?thesis
    proof cases
      case 1
      then show ?thesis using x by auto
    next
      case 2
      then have "fst x = p @ [GoLeft]" by (cases l) auto
      then have "prefix p w" using x(2) by (metis prefix_order.dual_order.trans prefixI)
      then show ?thesis by auto
    next
      case 3
      then have "fst x = p @ [GoRight]" by (cases r) auto
      then have "prefix p w" using x(2) by (metis prefix_order.dual_order.trans prefixI)
      then show ?thesis by auto
    qed
  qed
qed

lemma assignLoop_eq:
  "assignLoop q i t = (assignAll (bfsPaths q) i t, i + int (length (bfsPaths q)))"
  by (induction q i t rule: assignLoop.induct) auto


lemma parallel_snoc: "parallel p q \<Longrightarrow> parallel q (p @ [d])"
  by (auto simp: parallel_def prefix_snoc dest: append_prefixD)

lemma parallel_snoc_snoc: "parallel (p @ [GoLeft]) (p @ [GoRight])"
  by (simp add: parallel_def)

lemma fst_enqueueAt: "x \<in> set (enqueueAt p t) \<Longrightarrow> fst x = p"
  by (cases t) auto

lemma map_fst_enqueueAt: "map fst (enqueueAt p t) = (if t = Null then [] else [p])"
  by (cases t) auto

lemma bfsPaths_distinct:
  "sorted_wrt parallel (map fst q) \<Longrightarrow> distinct (bfsPaths q)"
proof (induction q rule: bfsPaths.induct)
  case 1
  then show ?case by simp
next
  case (2 p e l r queue)
  let ?q' = "queue @ enqueueAt (p @ [GoLeft]) l @ enqueueAt (p @ [GoRight]) r"
  have pq: "\<forall>x \<in> set queue. parallel p (fst x)" and sq: "sorted_wrt parallel (map fst queue)"
    using "2.prems" by auto
  have "sorted_wrt parallel (map fst ?q')"
    using pq sq parallel_snoc[of p _ GoLeft] parallel_snoc[of p _ GoRight] parallel_snoc_snoc[of p]
    by (auto simp: sorted_wrt_append map_fst_enqueueAt)
  then have d: "distinct (bfsPaths ?q')" by (rule "2.IH")
  have "p \<notin> set (bfsPaths ?q')"
  proof
    assume "p \<in> set (bfsPaths ?q')"
    then obtain x where x: "x \<in> set ?q'" "prefix (fst x) p"
      using bfsPaths_prefix by blast
    then consider "x \<in> set queue" | "fst x = p @ [GoLeft]" | "fst x = p @ [GoRight]"
      by (auto dest: fst_enqueueAt)
    then show False
    proof cases
      case 1
      then show False using pq x(2) by (auto simp: parallel_def)
    next
      case 2
      then show False using x(2) by (auto simp: prefix_def)
    next
      case 3
      then show False using x(2) by (auto simp: prefix_def)
    qed
  qed
  then show ?case using d by simp
qed

lemma stripIdx_eq_Node:
  "stripIdx t = stripIdx (Node e l r) \<Longrightarrow>
   \<exists>e2 l2 r2. t = Node e2 l2 r2 \<and> stripIdx l2 = stripIdx l \<and> stripIdx r2 = stripIdx r"
  by (cases t) auto

lemma stripIdx_eq_Null [simp]: "stripIdx t = Null \<longleftrightarrow> t = Null"
  by (cases t) auto

lemma stripIdx_eq_Null' [simp]: "Null = stripIdx t \<longleftrightarrow> t = Null"
  by (cases t) auto

lemma bfsPaths_elems:
  "\<forall>(p, e, l, r) \<in> set q. stripIdx (sub p t) = stripIdx (Node e l r) \<Longrightarrow>
   map (\<lambda>p. elemOf (sub p t)) (bfsPaths q) =
     map Some (bfsLoop (concat (map (\<lambda>x. enqueue (sub (fst x) t)) q)))"
proof (induction q rule: bfsPaths.induct)
  case 1
  then show ?case by simp
next
  case (2 p e l r queue)
  let ?f = "\<lambda>x. enqueue (sub (fst x) t)"
  let ?q' = "queue @ enqueueAt (p @ [GoLeft]) l @ enqueueAt (p @ [GoRight]) r"
  from "2.prems" obtain e2 l2 r2 where
    t: "sub p t = Node e2 l2 r2" and l2: "stripIdx l2 = stripIdx l" and r2: "stripIdx r2 = stripIdx r"
    using stripIdx_eq_Node[of "sub p t" e l r] by auto
  have cl: "concat (map ?f (enqueueAt (p @ [GoLeft]) l)) = enqueue l2"
    using l2 t by (cases l; cases l2) (auto simp: sub_append)
  have cr: "concat (map ?f (enqueueAt (p @ [GoRight]) r)) = enqueue r2"
    using r2 t by (cases r; cases r2) (auto simp: sub_append)
  have vl: "\<forall>(p, e, l, r) \<in> set (enqueueAt (p @ [GoLeft]) l). stripIdx (sub p t) = stripIdx (Node e l r)"
    using l2 t by (cases l) (auto simp: sub_append)
  have vr: "\<forall>(p, e, l, r) \<in> set (enqueueAt (p @ [GoRight]) r). stripIdx (sub p t) = stripIdx (Node e l r)"
    using r2 t by (cases r) (auto simp: sub_append)
  have "\<forall>(p, e, l, r) \<in> set ?q'. stripIdx (sub p t) = stripIdx (Node e l r)"
    using "2.prems" vl vr by auto
  from "2.IH"[OF this]
  have "map (\<lambda>p. elemOf (sub p t)) (bfsPaths ?q') =
        map Some (bfsLoop (concat (map ?f queue) @ enqueue l2 @ enqueue r2))"
    by (simp add: cl cr)
  then show ?case using t by simp
qed

lemma concat_enqueue_elems:
  "concat (map (\<lambda>(e, l, r). e # elems l @ elems r) (enqueue t)) = elems t"
  by (cases t) auto

lemma mset_bfsLoop:
  "mset (bfsLoop q) = mset (concat (map (\<lambda>(e, l, r). e # elems l @ elems r) q))"
  by (induction q rule: bfsLoop.induct) (auto simp: concat_enqueue_elems)

lemma mset_bfsOrder: "mset (bfsOrder t) = mset (elems t)"
  by (simp add: bfsOrder_def mset_bfsLoop concat_enqueue_elems)

lemma length_bfsOrder: "length (bfsOrder t) = nodeCount t"
  using mset_bfsOrder[of t] by (metis nodeCount_def size_mset)

lemma elems_stripIdx: "map (\<lambda>e. e\<lparr>nodeIndex := 0\<rparr>) (elems t) = elems (stripIdx t)"
  by (induction t) auto

lemma nodeCount_stripIdx: "nodeCount (stripIdx t) = nodeCount t"
  by (metis elems_stripIdx length_map nodeCount_def)

lemma assignLoop_labels:
  assumes "assignLoop (enqueueAt [] t) 0 t = (t', n)"
  shows "stripIdx t' = stripIdx t"
    and "n = int (nodeCount t)"
    and "map nodeIndex (bfsOrder t') = map int [0..<nodeCount t]"
proof -
  let ?q = "enqueueAt [] t"
  let ?ps = "bfsPaths ?q"
  have t': "t' = assignAll ?ps 0 t" and n: "n = int (length ?ps)"
    using assms by (simp_all add: assignLoop_eq)
  show s: "stripIdx t' = stripIdx t" by (simp add: t')
  have v: "\<forall>(p, e, l, r) \<in> set ?q. stripIdx (sub p t) = stripIdx (Node e l r)"
    by (cases t) auto
  have v': "\<forall>(p, e, l, r) \<in> set ?q. stripIdx (sub p t') = stripIdx (Node e l r)"
    using s by (cases t) auto
  have c: "concat (map (\<lambda>x. enqueue (sub (fst x) u)) ?q) = enqueue u"
    if "stripIdx u = stripIdx t" for u
    using that by (cases t; cases u) auto
  have e0: "map (\<lambda>p. elemOf (sub p t)) ?ps = map Some (bfsOrder t)"
    using bfsPaths_elems[OF v] c[of t] by (simp add: bfsOrder_def)
  have e1: "map (\<lambda>p. elemOf (sub p t')) ?ps = map Some (bfsOrder t')"
    using bfsPaths_elems[OF v'] c[OF s] by (simp add: bfsOrder_def)
  have len: "length ?ps = nodeCount t"
    using e0 by (metis length_map length_bfsOrder)
  show "n = int (nodeCount t)" using n len by simp
  have d: "distinct ?ps"
    by (rule bfsPaths_distinct) (cases t; simp)
  have "map Some (map nodeIndex (bfsOrder t')) = map Some (map int [0..<nodeCount t])"
  proof (rule nth_equalityI)
    show "length (map Some (map nodeIndex (bfsOrder t'))) = length (map Some (map int [0..<nodeCount t]))"
      using e1 len by (metis length_map length_upt minus_nat.diff_0)
  next
    fix j assume "j < length (map Some (map nodeIndex (bfsOrder t')))"
    then have j: "j < length ?ps" using e1 by (metis length_map)
    have a: "elemOf (sub (?ps ! j) t') = Some (bfsOrder t' ! j)"
      using e1 j by (metis length_map nth_map)
    have b: "elemOf (sub (?ps ! j) t) = Some (bfsOrder t ! j)"
      using e0 j by (metis length_map nth_map)
    have "elemOf (sub (?ps ! j) t') = map_option (\<lambda>e. e\<lparr>nodeIndex := 0 + int j\<rparr>) (elemOf (sub (?ps ! j) t))"
      unfolding t' using d j by (rule elemOf_sub_assignAll_nth)
    then have "nodeIndex (bfsOrder t' ! j) = int j"
      using a b by simp
    moreover have "j < length (bfsOrder t')" using e1 j by (metis length_map)
    ultimately show "map Some (map nodeIndex (bfsOrder t')) ! j = map Some (map int [0..<nodeCount t]) ! j"
      using j len by simp
  qed
  then show "map nodeIndex (bfsOrder t') = map int [0..<nodeCount t]"
    using inj_map_eq_map[OF inj_Some] by blast
qed

lemma reassign_head:
  "stripIdx (head (reassignNodeIndices t)) = stripIdx (head t)
   \<and> map nodeIndex (bfsOrder (head (reassignNodeIndices t))) = map int [0..<nodeCount (head t)]"
proof (cases "head t")
  case Null
  then show ?thesis
    by (simp add: reassignNodeIndices_def bfsOrder_def nodeCount_def)
next
  case (Node e l r)
  obtain h n where a: "assignLoop (enqueueAt [] (head t)) 0 (head t) = (h, n)"
    by (cases "assignLoop (enqueueAt [] (head t)) 0 (head t)") auto
  then have "head (reassignNodeIndices t) = h"
    using Node by (simp add: reassignNodeIndices_def)
  then show ?thesis
    using assignLoop_labels(1,3)[OF a] by simp
qed

lemma nodeCount_reassign: "nodeCount (head (reassignNodeIndices t)) = nodeCount (head t)"
  using reassign_head[of t] by (metis nodeCount_stripIdx)

lemma reassign_labelled:
  "map nodeIndex (bfsOrder (head (reassignNodeIndices t)))
     = map int [0..<nodeCount (head (reassignNodeIndices t))]"
  using reassign_head[of t] by (simp add: nodeCount_reassign)

lemma labelled_elems:
  assumes "map nodeIndex (bfsOrder t) = map int [0..<nodeCount t]"
  shows "distinct (map nodeIndex (elems t))"
    and "set (map nodeIndex (elems t)) = {i. 0 \<le> i \<and> i < int (nodeCount t)}"
proof -
  have m: "mset (map nodeIndex (elems t)) = mset (map int [0..<nodeCount t])"
    using assms mset_bfsOrder[of t] by (metis mset_map)
  have "distinct (map int [0..<nodeCount t])"
    by (simp add: distinct_map)
  then show "distinct (map nodeIndex (elems t))"
    using m by (metis mset_eq_imp_distinct_iff)
  have "set (map nodeIndex (elems t)) = set (map int [0..<nodeCount t])"
    using m by (rule mset_eq_setD)
  also have "\<dots> = {i. 0 \<le> i \<and> i < int (nodeCount t)}"
  proof (rule set_eqI)
    fix i :: int
    show "i \<in> set (map int [0..<nodeCount t]) \<longleftrightarrow> i \<in> {i. 0 \<le> i \<and> i < int (nodeCount t)}"
    proof
      assume "i \<in> set (map int [0..<nodeCount t])"
      then show "i \<in> {i. 0 \<le> i \<and> i < int (nodeCount t)}" by auto
    next
      assume "i \<in> {i. 0 \<le> i \<and> i < int (nodeCount t)}"
      then have "nat i < nodeCount t" "int (nat i) = i" by auto
      then show "i \<in> set (map int [0..<nodeCount t])"
        by (metis atLeastLessThan_iff atLeastLessThan_upt image_eqI list.set_map zero_le)
    qed
  qed
  finally show "set (map nodeIndex (elems t)) = {i. 0 \<le> i \<and> i < int (nodeCount t)}" .
qed

lemma labelled_root:
  assumes "map nodeIndex (bfsOrder (Node e l r)) = map int [0..<nodeCount (Node e l r)]"
  shows "nodeIndex e = 0" and "count_list (map nodeIndex (elems (Node e l r))) 0 = 1"
proof -
  have "nodeCount (Node e l r) = Suc (nodeCount l + nodeCount r)"
    by (simp add: nodeCount_def)
  then have "map nodeIndex (bfsOrder (Node e l r)) = 0 # map int [1..<Suc (nodeCount l + nodeCount r)]"
    using assms by (simp add: upt_conv_Cons del: upt_Suc)
  then show "nodeIndex e = 0"
    by (simp add: bfsOrder_def)
  have "distinct (map nodeIndex (elems (Node e l r)))"
    using assms by (rule labelled_elems(1))
  moreover have "0 \<in> set (map nodeIndex (elems (Node e l r)))"
    using \<open>nodeIndex e = 0\<close> by simp
  ultimately show "count_list (map nodeIndex (elems (Node e l r))) 0 = 1"
    by (simp add: distinct_count_atmost_1 flip: count_mset)
qed

lemma Insert_Inr_cases:
  assumes "Insert t nm v now1 now2 = Inr t'"
  obtains
    (empty) "head t = Null"
      "t' = t\<lparr>head := Node (SetNodeIndex (newElement t nm v now1) 0) Null Null, nextNodeIndex := 1\<rparr>"
  | (walk) e l r h nxt where "head t = Node e l r"
      "insertToLeaf (rootPath t) now2 e l r (newElement t nm v now1) (nextNodeIndex t + 1) = Inr (h, nxt)"
      "t' = reassignNodeIndices (t\<lparr>head := h, nextNodeIndex := nxt\<rparr>)"
proof (cases "head t")
  case Null
  then show ?thesis
    using assms empty by (simp add: Insert_def split: option.splits)
next
  case (Node e l r)
  then show ?thesis
    using assms walk by (simp add: Insert_def split: option.splits sum.splits prod.splits)
qed

lemma Delete_Inr_cases:
  assumes "Delete t nm = Inr t'"
  obtains newHead where "head t \<noteq> Null" "deleteNode (head t) nm = (newHead, True)"
    "t' = reassignNodeIndices (renameIntermediateNodes (t\<lparr>head := newHead\<rparr>))"
  using assms by (simp add: Delete_def split: if_splits prod.splits)

section \<open>Indices after Insert and Delete\<close>

text \<open>
  Claim C4, amended. After every successful Insert and every successful Delete, from any
  tree state, the indices are the level-order labelling of the tree: the elements in
  level order carry \<open>0, 1, \<dots>, size - 1\<close>, so the indices are pairwise distinct and their
  set is \<open>{0, \<dots>, size - 1}\<close>; when the tree is not empty the root carries index 0 and no
  other node does.
\<close>

theorem indices_level_order_after_mutation:
  assumes "Insert t nm v now1 now2 = Inr t' \<or> Delete t nm = Inr t'"
  shows "map nodeIndex (bfsOrder (head t')) = map int [0..<nodeCount (head t')]
       \<and> distinct (map nodeIndex (elems (head t')))
       \<and> set (map nodeIndex (elems (head t'))) = {i. 0 \<le> i \<and> i < int (nodeCount (head t'))}
       \<and> (head t' \<noteq> Null \<longrightarrow>
            map_option nodeIndex (elemOf (head t')) = Some 0
            \<and> count_list (map nodeIndex (elems (head t'))) 0 = 1)"
proof -
  have lab: "map nodeIndex (bfsOrder (head t')) = map int [0..<nodeCount (head t')]"
    using assms
  proof
    assume "Insert t nm v now1 now2 = Inr t'"
    then show ?thesis
    proof (cases rule: Insert_Inr_cases)
      case empty
      then show ?thesis
        by (simp add: bfsOrder_def nodeCount_def SetNodeIndex_def)
    next
      case (walk e l r h nxt)
      then show ?thesis by (simp only: reassign_labelled)
    qed
  next
    assume "Delete t nm = Inr t'"
    then show ?thesis
      by (cases rule: Delete_Inr_cases) (simp only: reassign_labelled)
  qed
  have root: "map_option nodeIndex (elemOf (head t')) = Some 0
            \<and> count_list (map nodeIndex (elems (head t'))) 0 = 1" if nn: "head t' \<noteq> Null"
  proof (cases "head t'")
    case Null
    then show ?thesis using nn by simp
  next
    case (Node e l r)
    then show ?thesis using labelled_root[of e l r] lab by simp
  qed
  show ?thesis
    using lab labelled_elems[OF lab] root by blast
qed

theorem indices_level_order_after_mutation_witness:
  "map nodeIndex (bfsOrder (head (treeOf (Delete
      (treeOf (run (NewTree ''d'') 1 [OpInsert ''alice'' [], OpInsert ''bob'' [], OpInsert ''carol'' []]))
      ''alice'')))) = [0, 1, 2, 3]
   \<and> head (treeOf (Delete
      (treeOf (run (NewTree ''d'') 1 [OpInsert ''alice'' [], OpInsert ''bob'' [], OpInsert ''carol'' []]))
      ''alice'')) \<noteq> Null
   \<and> count_list (map nodeIndex (elems (head (treeOf (Delete
      (treeOf (run (NewTree ''d'') 1 [OpInsert ''alice'' [], OpInsert ''bob'' [], OpInsert ''carol'' []]))
      ''alice''))))) 0 = 1"
proof -
  let ?t = "treeOf (run (NewTree ''d'') 1 [OpInsert ''alice'' [], OpInsert ''bob'' [], OpInsert ''carol'' []])"
  have h: "Insert ?t ''alice'' [] 0 0 = Inr (treeOf (Delete ?t ''alice''))
         \<or> Delete ?t ''alice'' = Inr (treeOf (Delete ?t ''alice''))"
    by code_simp
  have n: "nodeCount (head (treeOf (Delete ?t ''alice''))) = 4"
    by code_simp
  have nn: "head (treeOf (Delete ?t ''alice'')) \<noteq> Null"
    by code_simp
  show ?thesis
    using indices_level_order_after_mutation[OF h] n nn
    by (simp add: upt_conv_Cons del: upt_Suc)
qed

text \<open>
  The claim as stated asks for exactly one node with index 0 after every Delete. Deleting
  the only node leaves the empty tree, in which no node has index 0.
\<close>

theorem index_zero_absent_after_last_delete:
  "succeeded (run (NewTree ''d'') 1 [OpInsert ''alice'' [], OpDelete ''alice''])
   \<and> count_list (map nodeIndex
        (elems (head (treeOf (run (NewTree ''d'') 1 [OpInsert ''alice'' [], OpDelete ''alice''])))))
        0 = 0"
  by code_simp

section \<open>Subtree counts\<close>

text \<open>
  Claim C2 says that \<open>leftCount\<close> and \<open>rightCount\<close> are the numbers of nodes below the two
  child pointers. After Insert of alice, bob and charlie the left subtree of the root
  holds three nodes (an intermediate node and two leaves) and the root's \<open>leftCount\<close>
  is 2: \<open>insertToLeaf\<close> adds two nodes below each ancestor and increments its count by one.
\<close>

theorem counts_differ_from_subtree_sizes:
  "succeeded (run (NewTree ''d'') 1 [OpInsert ''alice'' [], OpInsert ''bob'' [], OpInsert ''charlie'' []])
   \<and> map_option leftCount (elemOf (head (treeOf
         (run (NewTree ''d'') 1 [OpInsert ''alice'' [], OpInsert ''bob'' [], OpInsert ''charlie'' []]))))
       = Some 2
   \<and> nodeCount (sub [GoLeft] (head (treeOf
         (run (NewTree ''d'') 1 [OpInsert ''alice'' [], OpInsert ''bob'' [], OpInsert ''charlie'' []]))))
       = 3"
  by code_simp

section \<open>Computed parent and child indices\<close>

text \<open>
  Claim C6 says that \<open>GetNodeByIndex\<close> at the computed \<open>ParentIndex\<close> of a node returns
  the node's parent. After six Inserts the leaf bob is the left child of
  \<open>intermediate_bob_frank\<close> and has index 9; its \<open>ParentIndex\<close> is 4, and the node with
  index 4 is the leaf charlie.
\<close>

theorem parent_index_names_another_node:
  "succeeded (run (NewTree ''d'') 1 [OpInsert ''alice'' [], OpInsert ''bob'' [],
       OpInsert ''charlie'' [], OpInsert ''dave'' [], OpInsert ''eve'' [], OpInsert ''frank'' []])
   \<and> map_option name (elemOf (sub [GoRight, GoLeft, GoLeft] (head (treeOf
       (run (NewTree ''d'') 1 [OpInsert ''alice'' [], OpInsert ''bob'' [],
          OpInsert ''charlie'' [], OpInsert ''dave'' [], OpInsert ''eve'' [], OpInsert ''frank'' []])))))
       = Some ''bob''
   \<and> map_option ParentIndex (elemOf (sub [GoRight, GoLeft, GoLeft] (head (treeOf
       (run (NewTree ''d'') 1 [OpInsert ''alice'' [], OpInsert ''bob'' [],
          OpInsert ''charlie'' [], OpInsert ''dave'' [], OpInsert ''eve'' [], OpInsert ''frank'' []])))))
       = Some 4
   \<and> map_option name (elemOf (sub [GoRight, GoLeft] (head (treeOf
       (run (NewTree ''d'') 1 [OpInsert ''alice'' [], OpInsert ''bob'' [],
          OpInsert ''charlie'' [], OpInsert ''dave'' [], OpInsert ''eve'' [], OpInsert ''frank'' []])))))
       = Some ''intermediate_bob_frank''
   \<and> map_option name (elemOf (GetNodeByIndex (treeOf
       (run (NewTree ''d'') 1 [OpInsert ''alice'' [], OpInsert ''bob'' [],
          OpInsert ''charlie'' [], OpInsert ''dave'' [], OpInsert ''eve'' [], OpInsert ''frank'' []])) 4))
       = Some ''charlie''"
  by code_simp

section \<open>Leaves are the nodes without children\<close>

lemma collectLeaves_childless: "collectLeaves t = filter childless (subtrees t)"
  by (induction t) (auto simp: IsLeaf_def)

text \<open>
  Claim C10. \<open>GetLeaves\<close> returns the nodes without children, whatever their \<open>nodeType\<close>.
  After Insert of alice and bob and Delete of both, the root is an intermediate node
  without children; \<open>GetLeaves\<close> returns it, and the next Insert treats it as a leaf: it
  becomes the left child of a new intermediate node.
\<close>

theorem GetLeaves_childless_any_type:
  "GetLeaves t = filter childless (subtrees (head t))
   \<and> succeeded (run (NewTree ''d'') 1
        [OpInsert ''alice'' [], OpInsert ''bob'' [], OpDelete ''alice'', OpDelete ''bob''])
   \<and> map (map_option nodeType \<circ> elemOf) (GetLeaves (treeOf (run (NewTree ''d'') 1
        [OpInsert ''alice'' [], OpInsert ''bob'' [], OpDelete ''alice'', OpDelete ''bob''])))
       = [Some ''intermediate'']
   \<and> map name (elems (head (treeOf (run (NewTree ''d'') 1
        [OpInsert ''alice'' [], OpInsert ''bob'' [], OpDelete ''alice'', OpDelete ''bob'',
         OpInsert ''carol'' []]))))
       = [''intermediate_intermediate_alice_bob_carol'', ''intermediate_alice_bob'', ''carol'']"
proof -
  have a: "GetLeaves t = filter childless (subtrees (head t))"
    by (cases "head t") (simp_all add: GetLeaves_def collectLeaves_childless)
  have b: "succeeded (run (NewTree ''d'') 1
        [OpInsert ''alice'' [], OpInsert ''bob'' [], OpDelete ''alice'', OpDelete ''bob''])
   \<and> map (map_option nodeType \<circ> elemOf) (GetLeaves (treeOf (run (NewTree ''d'') 1
        [OpInsert ''alice'' [], OpInsert ''bob'' [], OpDelete ''alice'', OpDelete ''bob''])))
       = [Some ''intermediate'']
   \<and> map name (elems (head (treeOf (run (NewTree ''d'') 1
        [OpInsert ''alice'' [], OpInsert ''bob'' [], OpDelete ''alice'', OpDelete ''bob'',
         OpInsert ''carol'' []]))))
       = [''intermediate_intermediate_alice_bob_carol'', ''intermediate_alice_bob'', ''carol'']"
    by code_simp
  show ?thesis using a b by (rule conjI)
qed

section \<open>Delete\<close>

lemma attachRightmost_Null:
  "attachRightmost e l Null rightSub c = (e\<lparr>rightCount := c\<rparr>, l, rightSub)"
  by (simp add: attachRightmost.simps[of e l Null])

lemma attachRightmost_Node:
  "attachRightmost e l (Node re rl rr) rightSub c =
     (case attachRightmost re rl rr rightSub c of (re', rl', rr') \<Rightarrow> (e, l, Node re' rl' rr'))"
  by (simp add: attachRightmost.simps[of e l "Node re rl rr"])

lemma nameKind_simps [simp]:
  "nameKind (e\<lparr>rightCount := c\<rparr>) = nameKind e"
  "nameKind (e\<lparr>leftCount := c\<rparr>) = nameKind e"
  "nameKind (e\<lparr>nodeIndex := i\<rparr>) = nameKind e"
  by (simp_all add: nameKind_def)

lemma attachRightmost_elems:
  "attachRightmost e l r rightSub c = (e', l', r') \<Longrightarrow>
   map nameKind (elems (Node e' l' r')) = map nameKind (elems (Node e l r)) @ map nameKind (elems rightSub)"
proof (induction r arbitrary: e l e' l' r')
  case Null
  then show ?case by (auto simp: attachRightmost_Null)
next
  case (Node re rl rr)
  obtain a b d where ab: "attachRightmost re rl rr rightSub c = (a, b, d)"
    by (cases "attachRightmost re rl rr rightSub c") auto
  from Node.IH(2)[OF ab] ab Node.prems show ?case
    by (auto simp: attachRightmost_Node)
qed

lemma deleteNode_notfound: "deleteNode t nm = (t', False) \<Longrightarrow> t' = t"
proof (induction t nm arbitrary: t' rule: deleteNode.induct)
  case (1 targetName)
  then show ?case by simp
next
  case (2 e l r targetName)
  then show ?case
    by (auto simp: Let_def split: if_splits node.splits prod.splits)
qed

lemma deleteNode_mset:
  "deleteNode t nm = (t', True) \<Longrightarrow>
   \<exists>ty. mset (map nameKind (elems t)) = add_mset (nm, ty) (mset (map nameKind (elems t')))"
proof (induction t nm arbitrary: t' rule: deleteNode.induct)
  case (1 targetName)
  then show ?case by simp
next
  case (2 e l r targetName)
  show ?case
  proof (cases "name e = targetName")
    case True
    show ?thesis
    proof (cases l)
      case Null
      moreover have "nameKind e = (targetName, nodeType e)"
        using True by (simp add: nameKind_def)
      ultimately show ?thesis using True "2.prems" by (auto split: if_splits)
    next
      case L: (Node le ll lr)
      show ?thesis
      proof (cases r)
        case Null
        moreover have "nameKind e = (targetName, nodeType e)"
          using True by (simp add: nameKind_def)
        ultimately show ?thesis using True L "2.prems" by auto
      next
        case R: (Node re rl rr)
        obtain a b d where ab: "attachRightmost le ll lr r (leftCount re + rightCount re + 1) = (a, b, d)"
          by (cases "attachRightmost le ll lr r (leftCount re + rightCount re + 1)") auto
        have t': "t' = Node (a\<lparr>rightCount := rightCount a + (leftCount re + rightCount re + 1)\<rparr>) b d"
          using True L R ab "2.prems" by (simp add: Let_def)
        have "map nameKind (elems (Node a b d)) = map nameKind (elems l) @ map nameKind (elems r)"
          using attachRightmost_elems[OF ab] L by simp
        then have "map nameKind (elems t') = map nameKind (elems l) @ map nameKind (elems r)"
          unfolding t' by simp
        then have "mset (map nameKind (elems t')) =
                   mset (map nameKind (elems l)) + mset (map nameKind (elems r))"
          by (metis mset_append)
        moreover have "nameKind e = (targetName, nodeType e)"
          using True by (simp add: nameKind_def)
        ultimately show ?thesis by auto
      qed
    qed
  next
    case False
    obtain l' fl where dl: "(if l \<noteq> Null then deleteNode l targetName else (l, False)) = (l', fl)"
      by (cases "if l \<noteq> Null then deleteNode l targetName else (l, False)") auto
    show ?thesis
    proof (cases fl)
      case True
      then have "l \<noteq> Null" "deleteNode l targetName = (l', True)"
        using dl by (auto split: if_splits)
      from "2.IH"(1)[OF False this] obtain ty where
        "mset (map nameKind (elems l)) = add_mset (targetName, ty) (mset (map nameKind (elems l')))" by blast
      moreover have "t' = Node (e\<lparr>leftCount := leftCount e - 1\<rparr>) l' r"
        using False dl True "2.prems" by simp
      ultimately show ?thesis by auto
    next
      case fF: False
      obtain r' fr where dr: "(if r \<noteq> Null then deleteNode r targetName else (r, False)) = (r', fr)"
        by (cases "if r \<noteq> Null then deleteNode r targetName else (r, False)") auto
      have fr: "fr" and t': "t' = Node (e\<lparr>rightCount := rightCount e - 1\<rparr>) l' r'"
        using False dl fF dr "2.prems" by (auto split: if_splits)
      have ll: "l' = l"
        using dl fF deleteNode_notfound by (auto split: if_splits)
      have rn: "r \<noteq> Null" and rd: "deleteNode r targetName = (r', True)"
        using dr fr by (auto split: if_splits)
      from "2.IH"(2)[OF False dl[symmetric] _ rn rd] fF obtain ty where
        "mset (map nameKind (elems r)) = add_mset (targetName, ty) (mset (map nameKind (elems r')))" by blast
      then show ?thesis using t' ll by auto
    qed
  qed
qed

lemma deleteNode_found:
  "nm \<in> set (map name (elems t)) \<Longrightarrow> \<exists>t'. deleteNode t nm = (t', True)"
proof (induction t nm rule: deleteNode.induct)
  case (1 targetName)
  then show ?case by simp
next
  case (2 e l r targetName)
  show ?case
  proof (cases "name e = targetName")
    case True
    then show ?thesis by (auto simp: Let_def split: node.splits prod.splits)
  next
    case False
    obtain l' fl where dl: "(if l \<noteq> Null then deleteNode l targetName else (l, False)) = (l', fl)"
      by (cases "if l \<noteq> Null then deleteNode l targetName else (l, False)") auto
    show ?thesis
    proof (cases fl)
      case True
      then show ?thesis using False dl by simp
    next
      case fF: False
      have "targetName \<notin> set (map name (elems l))"
      proof
        assume a: "targetName \<in> set (map name (elems l))"
        then have "l \<noteq> Null" by auto
        with "2.IH"(1)[OF False this a] dl fF show False by auto
      qed
      then have a: "targetName \<in> set (map name (elems r))"
        using "2.prems" False by auto
      then have rn: "r \<noteq> Null" by auto
      from "2.IH"(2)[OF False dl[symmetric] _ rn a] fF obtain r' where "deleteNode r targetName = (r', True)"
        by auto
      then show ?thesis using False dl fF rn by simp
    qed
  qed
qed


lemma updateNames_Node:
  "\<exists>e'. updateNames rp (Node e l r) = Node e' (updateNames rp l) (updateNames rp r)
        \<and> nodeType e' = nodeType e \<and> (nodeType e \<noteq> ''intermediate'' \<longrightarrow> e' = e)"
  by (simp add: Let_def)

lemma leafNames_Node:
  "leafNames (Node e l r) = (if nodeType e = ''leaf'' then [name e] else []) @ leafNames l @ leafNames r"
  by (simp add: leafNames_def)

lemma leafNames_Null [simp]: "leafNames Null = []"
  by (simp add: leafNames_def)

lemma nodeCount_Node [simp]: "nodeCount (Node e l r) = Suc (nodeCount l + nodeCount r)"
  by (simp add: nodeCount_def)

lemma nodeCount_Null [simp]: "nodeCount Null = 0"
  by (simp add: nodeCount_def)

lemma updateNames_keeps:
  "leafNames (updateNames rp t) = leafNames t \<and> nodeCount (updateNames rp t) = nodeCount t"
proof (induction t)
  case Null
  then show ?case by simp
next
  case (Node e l r)
  obtain e' where e': "updateNames rp (Node e l r) = Node e' (updateNames rp l) (updateNames rp r)"
    "nodeType e' = nodeType e" "nodeType e \<noteq> ''intermediate'' \<longrightarrow> e' = e"
    using updateNames_Node by blast
  have "nodeType e = ''leaf'' \<Longrightarrow> e' = e" using e'(3) by auto
  then show ?case
    using Node e'(1,2) by (auto simp: leafNames_Node)
qed

lemma leafNames_stripIdx: "leafNames (stripIdx t) = leafNames t"
  by (induction t) (auto simp: leafNames_Node)

lemma leafNames_reassign: "leafNames (head (reassignNodeIndices t)) = leafNames (head t)"
  using reassign_head[of t] by (metis leafNames_stripIdx)

lemma findLoop_found:
  "nm \<in> set (map name (concat (map (\<lambda>(e, l, r). e # elems l @ elems r) q))) \<Longrightarrow>
   \<exists>e l r. findLoop q nm = (Node e l r, True) \<and> name e = nm"
proof (induction q nm rule: findLoop.induct)
  case (1 nm)
  then show ?case by simp
next
  case (2 e l r queue nm)
  show ?case
  proof (cases "name e = nm")
    case True
    then show ?thesis by simp
  next
    case False
    have "concat (map (\<lambda>(e, l, r). e # elems l @ elems r) (queue @ enqueue l @ enqueue r))
          = concat (map (\<lambda>(e, l, r). e # elems l @ elems r) queue) @ elems l @ elems r"
      by (simp add: concat_enqueue_elems)
    then have "nm \<in> set (map name (concat (map (\<lambda>(e, l, r). e # elems l @ elems r)
                 (queue @ enqueue l @ enqueue r))))"
      using "2.prems" False by auto
    from "2.IH"[OF False this] show ?thesis using False by simp
  qed
qed

lemma Find_found:
  "nm \<in> set (map name (elems (head t))) \<Longrightarrow>
   \<exists>e l r. Find t nm = (Node e l r, True) \<and> name e = nm"
proof (cases "head t")
  case Null
  assume "nm \<in> set (map name (elems (head t)))"
  then show ?thesis using Null by simp
next
  case (Node e l r)
  assume "nm \<in> set (map name (elems (head t)))"
  then have "nm \<in> set (map name (concat (map (\<lambda>(e, l, r). e # elems l @ elems r) [(e, l, r)])))"
    using Node by simp
  from findLoop_found[OF this] show ?thesis by (simp add: Find_def Node)
qed

lemma leafNames_subset_names: "set (leafNames t) \<subseteq> set (map name (elems t))"
  by (auto simp: leafNames_def)

lemma mset_leafNames:
  "mset (leafNames t) = image_mset fst (filter_mset (\<lambda>x. snd x = ''leaf'') (mset (map nameKind (elems t))))"
  by (induction t) (auto simp: leafNames_Node nameKind_def)

lemma deleteNode_leafNames:
  assumes "deleteNode t nm = (t', True)"
  shows "mset (leafNames t) - {#nm#} \<subseteq># mset (leafNames t')"
proof -
  obtain ty where "mset (map nameKind (elems t)) = add_mset (nm, ty) (mset (map nameKind (elems t')))"
    using deleteNode_mset[OF assms] by blast
  then have "mset (leafNames t) =
      (if ty = ''leaf'' then add_mset nm (mset (leafNames t')) else mset (leafNames t'))"
    by (simp add: mset_leafNames)
  then show ?thesis
    by (auto simp: diff_subset_eq_self)
qed

lemma deleteNode_nodeCount:
  assumes "deleteNode t nm = (t', True)"
  shows "nodeCount t' + 1 = nodeCount t"
proof -
  obtain ty where "mset (map nameKind (elems t)) = add_mset (nm, ty) (mset (map nameKind (elems t')))"
    using deleteNode_mset[OF assms] by blast
  then have "size (mset (map nameKind (elems t))) = Suc (size (mset (map nameKind (elems t'))))"
    by simp
  then show ?thesis by (simp add: nodeCount_def)
qed

text \<open>
  Claim C1, amended. For every tree that holds a leaf named \<open>x\<close>, \<open>Delete x\<close> succeeds;
  the node count goes down by exactly one (Delete never removes a second node: the parent
  of a deleted leaf stays where it is, with one child slot empty); every remaining leaf
  is found by name; and the indices of the surviving nodes are \<open>0, \<dots>, size - 1\<close> in
  level order, without gaps or duplicates.
\<close>

theorem Delete_removes_one_node:
  assumes "nm \<in> set (leafNames (head t))"
  shows "\<exists>t'. Delete t nm = Inr t'
           \<and> nodeCount (head t') + 1 = nodeCount (head t)
           \<and> (\<forall>y \<in># mset (leafNames (head t)) - {#nm#}.
                 \<exists>e l r. Find t' y = (Node e l r, True) \<and> name e = y)
           \<and> map nodeIndex (bfsOrder (head t')) = map int [0..<nodeCount (head t')]
           \<and> distinct (map nodeIndex (elems (head t')))
           \<and> set (map nodeIndex (elems (head t'))) = {i. 0 \<le> i \<and> i < int (nodeCount (head t'))}"
proof -
  have nn: "head t \<noteq> Null" using assms by auto
  have "nm \<in> set (map name (elems (head t)))"
    using assms leafNames_subset_names by blast
  then obtain h where h: "deleteNode (head t) nm = (h, True)"
    using deleteNode_found by blast
  let ?t1 = "renameIntermediateNodes (t\<lparr>head := h\<rparr>)"
  let ?t' = "reassignNodeIndices ?t1"
  have D: "Delete t nm = Inr ?t'"
    using nn h by (simp add: Delete_def)
  have h1: "leafNames (head ?t1) = leafNames h \<and> nodeCount (head ?t1) = nodeCount h"
    using updateNames_keeps[of "rootPath t" h] by (simp add: renameIntermediateNodes_def)
  have cnt: "nodeCount (head ?t') + 1 = nodeCount (head t)"
    using h1 deleteNode_nodeCount[OF h] by (simp add: nodeCount_reassign)
  have ln: "leafNames (head ?t') = leafNames h"
    using h1 by (simp add: leafNames_reassign)
  have find: "\<exists>e l r. Find ?t' y = (Node e l r, True) \<and> name e = y"
    if "y \<in># mset (leafNames (head t)) - {#nm#}" for y
  proof -
    have "y \<in># mset (leafNames h)"
      using that deleteNode_leafNames[OF h] by (meson mset_subset_eqD)
    then have "y \<in> set (map name (elems (head ?t')))"
      using ln leafNames_subset_names[of "head ?t'"] by auto
    then show ?thesis by (rule Find_found)
  qed
  have lab: "map nodeIndex (bfsOrder (head ?t')) = map int [0..<nodeCount (head ?t')]"
    by (rule reassign_labelled)
  show ?thesis
    using D cnt find lab labelled_elems[OF lab] by blast
qed

theorem Delete_removes_one_node_witness:
  "''alice'' \<in> set (leafNames (head (treeOf (run (NewTree ''d'') 1
        [OpInsert ''alice'' [], OpInsert ''bob'' [], OpInsert ''carol'' []]))))
   \<and> (\<exists>t'. Delete (treeOf (run (NewTree ''d'') 1
        [OpInsert ''alice'' [], OpInsert ''bob'' [], OpInsert ''carol'' []])) ''alice'' = Inr t'
         \<and> nodeCount (head t') = 4
         \<and> (\<exists>e l r. Find t' ''carol'' = (Node e l r, True) \<and> name e = ''carol''))"
proof -
  let ?t = "treeOf (run (NewTree ''d'') 1 [OpInsert ''alice'' [], OpInsert ''bob'' [], OpInsert ''carol'' []])"
  have h: "''alice'' \<in> set (leafNames (head ?t))"
    by code_simp
  have n: "nodeCount (head ?t) = 5"
    by code_simp
  have c: "''carol'' \<in># mset (leafNames (head ?t)) - {#''alice''#}"
    by code_simp
  show ?thesis
    using Delete_removes_one_node[OF h] h n c by fastforce
qed

text \<open>
  The claim as stated has the parent intermediate spliced out (two nodes fewer) when a
  leaf with a sibling is deleted. Deleting bob from the tree of alice and bob leaves two
  of the three nodes: the intermediate root stays, with alice as its left child and no
  right child.
\<close>

theorem parent_stub_remains_after_Delete:
  "succeeded (run (NewTree ''d'') 1 [OpInsert ''alice'' [], OpInsert ''bob'' [], OpDelete ''bob''])
   \<and> map nameKind (elems (head (treeOf (run (NewTree ''d'') 1
        [OpInsert ''alice'' [], OpInsert ''bob'' [], OpDelete ''bob'']))))
       = [(''intermediate_alice_bob'', ''intermediate''), (''alice'', ''leaf'')]
   \<and> sub [GoRight] (head (treeOf (run (NewTree ''d'') 1
        [OpInsert ''alice'' [], OpInsert ''bob'' [], OpDelete ''bob'']))) = Null"
  by code_simp

section \<open>Insert\<close>

lemma saveError_intermediateNode [simp]:
  "saveError (intermediateNode rp now current newNode nxt) = None"
  by (simp add: saveError_def intermediateNode_def generateFilePath_def)

lemma saveError_newElement [simp]: "saveError (newElement t nm v now1) = None"
  by (simp add: saveError_def newElement_def generateFilePath_def)

lemma saveAndReturn_ok:
  "filePath current \<noteq> [] \<Longrightarrow> saveAndReturn current l r nxt = Inr (Node current l r, nxt)"
  by (simp add: saveAndReturn_def saveError_def)

lemma saveAndReturn_Inr:
  "saveAndReturn current l r nxt = Inr (h, nxt') \<Longrightarrow> h = Node current l r \<and> nxt' = nxt"
  by (simp add: saveAndReturn_def split: option.splits)

lemma insertToLeaf_succeeds:
  "hasPath (Node current l r) \<Longrightarrow> \<exists>h nxt'. insertToLeaf rp now current l r newNode nxt = Inr (h, nxt')"
proof (induction rp now current l r newNode nxt rule: insertToLeaf.induct)
  case (1 rp now current l r newNode nxt)
  have fp: "filePath current \<noteq> []" using "1.prems" by (simp add: hasPath_def)
  show ?case
  proof (cases "l = Null \<and> r = Null")
    case True
    then show ?thesis by (simp add: insertToLeaf.simps[of rp now current])
  next
    case nl: False
    show ?thesis
    proof (cases "countLeaves l \<le> countLeaves r")
      case le: True
      show ?thesis
      proof (cases l)
        case Null
        then show ?thesis
          using nl le fp by (simp add: insertToLeaf.simps[of rp now current] saveAndReturn_ok)
      next
        case (Node le' ll lr)
        have "hasPath (Node le' ll lr)" using "1.prems" Node by (auto simp: hasPath_def)
        from "1.IH"(1)[OF nl le Node this] obtain h nxt' where
          "insertToLeaf rp now le' ll lr newNode nxt = Inr (h, nxt')" by blast
        then show ?thesis
          using nl le fp Node by (simp add: insertToLeaf.simps[of rp now current] saveAndReturn_ok)
      qed
    next
      case gt: False
      show ?thesis
      proof (cases r)
        case Null
        then show ?thesis
          using nl gt fp by (simp add: insertToLeaf.simps[of rp now current] saveAndReturn_ok)
      next
        case (Node re rl rr)
        have "hasPath (Node re rl rr)" using "1.prems" Node by (auto simp: hasPath_def)
        from "1.IH"(2)[OF nl gt Node this] obtain h nxt' where
          "insertToLeaf rp now re rl rr newNode nxt = Inr (h, nxt')" by blast
        then show ?thesis
          using nl gt fp Node by (simp add: insertToLeaf.simps[of rp now current] saveAndReturn_ok)
      qed
    qed
  qed
qed

lemma skeleton_simps [simp]:
  "skeleton (Node (e\<lparr>leftCount := c\<rparr>) l r) = skeleton (Node e l r)"
  "skeleton (Node (e\<lparr>rightCount := c\<rparr>) l r) = skeleton (Node e l r)"
  "skeleton (Node (e\<lparr>nodeIndex := c\<rparr>) l r) = skeleton (Node e l r)"
  by simp_all

lemma skeleton_intermediateNode:
  "skeleton (Node (intermediateNode rp now current newNode nxt) l r)
   = skeleton (Node (intermediateNode rp now current newNode 0) l r)"
  by (simp add: intermediateNode_def)

lemma insertToLeaf_walk:
  "insertToLeaf rp now current l r newNode nxt = Inr (h, nxt') \<Longrightarrow>
   skeleton h = skeleton (put (walk (Node current l r))
                  (graft rp now newNode (sub (walk (Node current l r)) (Node current l r)))
                  (Node current l r))"
proof (induction rp now current l r newNode nxt arbitrary: h nxt' rule: insertToLeaf.induct)
  case (1 rp now current l r newNode nxt)
  show ?case
  proof (cases "l = Null \<and> r = Null")
    case True
    then show ?thesis
      using "1.prems" skeleton_intermediateNode
      by (auto simp: insertToLeaf.simps[of rp now current] graft_def)
  next
    case nl: False
    show ?thesis
    proof (cases "countLeaves l \<le> countLeaves r")
      case le: True
      show ?thesis
      proof (cases l)
        case Null
        then show ?thesis
          using nl le "1.prems"
          by (auto simp: insertToLeaf.simps[of rp now current] graft_def dest!: saveAndReturn_Inr)
      next
        case (Node le' ll lr)
        obtain h1 n1 where i: "insertToLeaf rp now le' ll lr newNode nxt = Inr (h1, n1)"
          and h: "h = Node (current\<lparr>leftCount := leftCount current + 1\<rparr>) h1 r"
          using nl le Node "1.prems"
          by (auto simp: insertToLeaf.simps[of rp now current] split: sum.splits dest!: saveAndReturn_Inr)
        from "1.IH"(1)[OF nl le Node i] h nl le Node show ?thesis by simp
      qed
    next
      case gt: False
      show ?thesis
      proof (cases r)
        case Null
        then show ?thesis
          using nl gt "1.prems"
          by (auto simp: insertToLeaf.simps[of rp now current] graft_def dest!: saveAndReturn_Inr)
      next
        case (Node re rl rr)
        obtain h1 n1 where i: "insertToLeaf rp now re rl rr newNode nxt = Inr (h1, n1)"
          and h: "h = Node (current\<lparr>rightCount := rightCount current + 1\<rparr>) l h1"
          using nl gt Node "1.prems"
          by (auto simp: insertToLeaf.simps[of rp now current] split: sum.splits dest!: saveAndReturn_Inr)
        from "1.IH"(2)[OF nl gt Node i] h nl gt Node show ?thesis by simp
      qed
    qed
  qed
qed

lemma walk_twoOrNone:
  "twoOrNone t \<Longrightarrow> t \<noteq> Null \<Longrightarrow> childless (sub (walk t) t)"
  by (induction t) auto


lemma name_intermediateNode_neq: "name (intermediateNode rp now current newNode nxt) \<noteq> name newNode"
proof
  assume "name (intermediateNode rp now current newNode nxt) = name newNode"
  then have "length (name (intermediateNode rp now current newNode nxt)) = length (name newNode)"
    by simp
  then show False by (simp add: intermediateNode_def)
qed

lemma insertToLeaf_count:
  "insertToLeaf rp now current l r newNode nxt = Inr (h, nxt') \<Longrightarrow>
   count_list (map name (elems h)) (name newNode)
     = count_list (map name (elems (Node current l r))) (name newNode) + 1"
proof (induction rp now current l r newNode nxt arbitrary: h nxt' rule: insertToLeaf.induct)
  case (1 rp now current l r newNode nxt)
  show ?case
  proof (cases "l = Null \<and> r = Null")
    case True
    then show ?thesis
      using "1.prems" name_intermediateNode_neq[of rp now current newNode nxt]
      by (auto simp: insertToLeaf.simps[of rp now current])
  next
    case nl: False
    show ?thesis
    proof (cases "countLeaves l \<le> countLeaves r")
      case le: True
      show ?thesis
      proof (cases l)
        case Null
        then show ?thesis
          using nl le "1.prems"
          by (auto simp: insertToLeaf.simps[of rp now current] dest!: saveAndReturn_Inr)
      next
        case (Node le' ll lr)
        obtain h1 n1 where i: "insertToLeaf rp now le' ll lr newNode nxt = Inr (h1, n1)"
          and h: "h = Node (current\<lparr>leftCount := leftCount current + 1\<rparr>) h1 r"
          using nl le Node "1.prems"
          by (auto simp: insertToLeaf.simps[of rp now current] split: sum.splits dest!: saveAndReturn_Inr)
        from "1.IH"(1)[OF nl le Node i] h Node show ?thesis by simp
      qed
    next
      case gt: False
      show ?thesis
      proof (cases r)
        case Null
        then show ?thesis
          using nl gt "1.prems"
          by (auto simp: insertToLeaf.simps[of rp now current] dest!: saveAndReturn_Inr)
      next
        case (Node re rl rr)
        obtain h1 n1 where i: "insertToLeaf rp now re rl rr newNode nxt = Inr (h1, n1)"
          and h: "h = Node (current\<lparr>rightCount := rightCount current + 1\<rparr>) l h1"
          using nl gt Node "1.prems"
          by (auto simp: insertToLeaf.simps[of rp now current] split: sum.splits dest!: saveAndReturn_Inr)
        from "1.IH"(2)[OF nl gt Node i] h Node show ?thesis by simp
      qed
    qed
  qed
qed

lemma names_stripIdx: "map name (elems (stripIdx t)) = map name (elems t)"
  by (induction t) auto

lemma names_reassign: "map name (elems (head (reassignNodeIndices t))) = map name (elems (head t))"
  using reassign_head[of t] by (metis names_stripIdx)

lemma skeleton_stripIdx: "skeleton (stripIdx t) = skeleton t"
  by (induction t) auto

lemma skeleton_reassign: "skeleton (head (reassignNodeIndices t)) = skeleton (head t)"
  using reassign_head[of t] by (metis skeleton_stripIdx)

lemma Insert_nonempty:
  assumes "head t = Node e l r" "hasPath (head t)"
  obtains h nxt where
    "insertToLeaf (rootPath t) now2 e l r (newElement t nm v now1) (nextNodeIndex t + 1) = Inr (h, nxt)"
    "Insert t nm v now1 now2 = Inr (reassignNodeIndices (t\<lparr>head := h, nextNodeIndex := nxt\<rparr>))"
proof -
  obtain h nxt where
    i: "insertToLeaf (rootPath t) now2 e l r (newElement t nm v now1) (nextNodeIndex t + 1) = Inr (h, nxt)"
    using insertToLeaf_succeeds assms by metis
  then have "Insert t nm v now1 now2 = Inr (reassignNodeIndices (t\<lparr>head := h, nextNodeIndex := nxt\<rparr>))"
    using assms(1) by (simp add: Insert_def)
  with i that show thesis by blast
qed

text \<open>
  Claim C3, amended. Insert has no duplicate check. For every tree that already holds a
  node named \<open>n\<close> (and whose nodes all have a file path, so that no save fails),
  \<open>Insert n\<close> succeeds and the tree holds one more node named \<open>n\<close> than before: a
  second node with that name is added.
\<close>

theorem Insert_existing_name_adds_node:
  assumes "nm \<in> set (map name (elems (head t)))" and "hasPath (head t)"
  shows "\<exists>t'. Insert t nm v now1 now2 = Inr t'
           \<and> count_list (map name (elems (head t'))) nm
               = count_list (map name (elems (head t))) nm + 1
           \<and> 2 \<le> count_list (map name (elems (head t'))) nm"
proof -
  obtain e l r where hd: "head t = Node e l r"
    using assms(1) by (cases "head t") auto
  obtain h nxt where
    i: "insertToLeaf (rootPath t) now2 e l r (newElement t nm v now1) (nextNodeIndex t + 1) = Inr (h, nxt)"
    and I: "Insert t nm v now1 now2 = Inr (reassignNodeIndices (t\<lparr>head := h, nextNodeIndex := nxt\<rparr>))"
    using Insert_nonempty[OF hd assms(2)] by blast
  have nn: "name (newElement t nm v now1) = nm" by (simp add: newElement_def)
  have c: "count_list (map name (elems h)) nm = count_list (map name (elems (head t))) nm + 1"
    using insertToLeaf_count[OF i] nn hd by simp
  have "0 < count_list (map name (elems (head t))) nm"
    using assms(1) by (metis count_list_0_iff gr0I)
  then show ?thesis
    using I c by (simp add: names_reassign)
qed

theorem Insert_existing_name_adds_node_witness:
  "''alice'' \<in> set (map name (elems (head (treeOf (run (NewTree ''d'') 1 [OpInsert ''alice'' []])))))
   \<and> hasPath (head (treeOf (run (NewTree ''d'') 1 [OpInsert ''alice'' []])))
   \<and> (\<exists>t'. Insert (treeOf (run (NewTree ''d'') 1 [OpInsert ''alice'' []])) ''alice'' [] 3 4 = Inr t'
         \<and> count_list (map name (elems (head t'))) ''alice'' = 2)"
proof -
  let ?t = "treeOf (run (NewTree ''d'') 1 [OpInsert ''alice'' []])"
  have a: "''alice'' \<in> set (map name (elems (head ?t)))" by code_simp
  have b: "hasPath (head ?t)" by code_simp
  have c: "count_list (map name (elems (head ?t))) ''alice'' = 1" by code_simp
  show ?thesis
    using Insert_existing_name_adds_node[OF a b, of "[]" 3 4] a b c by auto
qed

text \<open>
  The claim as stated has Insert fail on a name that is present. Inserting alice twice
  succeeds and leaves two leaves named alice under a new intermediate node.
\<close>

theorem Insert_accepts_duplicate_name:
  "succeeded (run (NewTree ''d'') 1 [OpInsert ''alice'' [], OpInsert ''alice'' []])
   \<and> map name (elems (head (treeOf (run (NewTree ''d'') 1 [OpInsert ''alice'' [], OpInsert ''alice'' []]))))
       = [''intermediate_alice_alice'', ''alice'', ''alice'']"
  by code_simp

text \<open>
  Claim C5, amended. For every Insert into a non-empty tree (whose nodes all have a file
  path), the result is the old tree with one position changed, up to the cached counts
  and the indices: the position at the end of the walk that goes, at each node with
  children, to the child with fewer leaves, left on a tie. The walk stops at a node
  without children or at an empty child slot. An empty slot receives the new leaf itself
  and no intermediate node is created. A node without children is replaced by a new
  intermediate node with empty payload whose left child is that node and whose right child
  is the new leaf; in a tree whose nodes all have two children or none the walk always
  ends this way.
\<close>

theorem Insert_follows_walk:
  assumes "head t \<noteq> Null" and "hasPath (head t)"
  shows "\<exists>t'. Insert t nm v now1 now2 = Inr t'
           \<and> skeleton (head t') =
               skeleton (put (walk (head t))
                 (graft (rootPath t) now2 (newElement t nm v now1) (sub (walk (head t)) (head t)))
                 (head t))
           \<and> (twoOrNone (head t) \<longrightarrow>
                (\<exists>e. sub (walk (head t)) (head t) = Node e Null Null
                   \<and> skeleton (head t') =
                       skeleton (put (walk (head t))
                         (Node (intermediateNode (rootPath t) now2 e (newElement t nm v now1) 0)
                            (Node e Null Null) (Node (newElement t nm v now1) Null Null))
                         (head t))
                   \<and> publicKey (intermediateNode (rootPath t) now2 e (newElement t nm v now1) 0) = []
                   \<and> nodeType (intermediateNode (rootPath t) now2 e (newElement t nm v now1) 0)
                       = ''intermediate''))"
proof -
  obtain e l r where hd: "head t = Node e l r"
    using assms(1) by (cases "head t") auto
  obtain h nxt where
    i: "insertToLeaf (rootPath t) now2 e l r (newElement t nm v now1) (nextNodeIndex t + 1) = Inr (h, nxt)"
    and I: "Insert t nm v now1 now2 = Inr (reassignNodeIndices (t\<lparr>head := h, nextNodeIndex := nxt\<rparr>))"
    using Insert_nonempty[OF hd assms(2)] by blast
  let ?t' = "reassignNodeIndices (t\<lparr>head := h, nextNodeIndex := nxt\<rparr>)"
  let ?p = "walk (head t)"
  let ?new = "newElement t nm v now1"
  have s: "skeleton (head ?t') =
           skeleton (put ?p (graft (rootPath t) now2 ?new (sub ?p (head t))) (head t))"
    using insertToLeaf_walk[OF i] hd by (simp add: skeleton_reassign)
  have full: "\<exists>e. sub ?p (head t) = Node e Null Null
       \<and> skeleton (head ?t') =
           skeleton (put ?p (Node (intermediateNode (rootPath t) now2 e ?new 0)
                            (Node e Null Null) (Node ?new Null Null)) (head t))
       \<and> publicKey (intermediateNode (rootPath t) now2 e ?new 0) = []
       \<and> nodeType (intermediateNode (rootPath t) now2 e ?new 0) = ''intermediate''"
    if "twoOrNone (head t)"
  proof -
    have "childless (sub ?p (head t))"
      using that assms(1) by (rule walk_twoOrNone)
    then obtain e' where e': "sub ?p (head t) = Node e' Null Null"
      by (cases "sub ?p (head t)") auto
    then show ?thesis
      using s by (simp add: graft_def intermediateNode_def)
  qed
  show ?thesis
    using I s full by blast
qed


theorem Insert_follows_walk_witness:
  "head (treeOf (run (NewTree ''d'') 1 [OpInsert ''alice'' [], OpInsert ''bob'' []])) \<noteq> Null
   \<and> hasPath (head (treeOf (run (NewTree ''d'') 1 [OpInsert ''alice'' [], OpInsert ''bob'' []])))
   \<and> twoOrNone (head (treeOf (run (NewTree ''d'') 1 [OpInsert ''alice'' [], OpInsert ''bob'' []])))
   \<and> walk (head (treeOf (run (NewTree ''d'') 1 [OpInsert ''alice'' [], OpInsert ''bob'' []]))) = [GoLeft]
   \<and> (\<exists>t' e. Insert (treeOf (run (NewTree ''d'') 1 [OpInsert ''alice'' [], OpInsert ''bob'' []]))
                ''carol'' [] 5 6 = Inr t'
         \<and> sub [GoLeft] (head (treeOf (run (NewTree ''d'') 1 [OpInsert ''alice'' [], OpInsert ''bob'' []])))
             = Node e Null Null
         \<and> name e = ''alice''
         \<and> map_option name (elemOf (sub [GoLeft] (skeleton (head t')))) = Some ''intermediate_alice_carol''
         \<and> map_option name (elemOf (sub [GoLeft, GoLeft] (skeleton (head t')))) = Some ''alice''
         \<and> map_option name (elemOf (sub [GoLeft, GoRight] (skeleton (head t')))) = Some ''carol'')"
proof -
  let ?t = "treeOf (run (NewTree ''d'') 1 [OpInsert ''alice'' [], OpInsert ''bob'' []])"
  have a: "head ?t \<noteq> Null" by code_simp
  have b: "hasPath (head ?t)" by code_simp
  have c: "twoOrNone (head ?t)" by code_simp
  have w: "walk (head ?t) = [GoLeft]" by code_simp
  have n: "map_option name (elemOf (sub [GoLeft] (head ?t))) = Some ''alice''" by code_simp
  have r: "head ?t = Node (the (elemOf (head ?t))) (sub [GoLeft] (head ?t)) (sub [GoRight] (head ?t))"
    by code_simp
  from Insert_follows_walk[OF a b, of "''carol''" "[]" 5 6] c w obtain t' e where
    I: "Insert ?t ''carol'' [] 5 6 = Inr t'" and
    e: "sub [GoLeft] (head ?t) = Node e Null Null" and
    s: "skeleton (head t') =
          skeleton (put [GoLeft]
            (Node (intermediateNode (rootPath ?t) 6 e (newElement ?t ''carol'' [] 5) 0)
               (Node e Null Null) (Node (newElement ?t ''carol'' [] 5) Null Null))
            (head ?t))"
    by auto
  have ne: "name e = ''alice''" using n e by simp
  have "skeleton (head t') =
          skeleton (put [GoLeft]
            (Node (intermediateNode (rootPath ?t) 6 e (newElement ?t ''carol'' [] 5) 0)
               (Node e Null Null) (Node (newElement ?t ''carol'' [] 5) Null Null))
            (Node (the (elemOf (head ?t))) (sub [GoLeft] (head ?t)) (sub [GoRight] (head ?t))))"
    using s r by simp
  then have "map_option name (elemOf (sub [GoLeft] (skeleton (head t')))) = Some ''intermediate_alice_carol''
     \<and> map_option name (elemOf (sub [GoLeft, GoLeft] (skeleton (head t')))) = Some ''alice''
     \<and> map_option name (elemOf (sub [GoLeft, GoRight] (skeleton (head t')))) = Some ''carol''"
    using ne by (simp add: intermediateNode_def newElement_def)
  then show ?thesis
    using a b c w I e ne by blast
qed

text \<open>
  The claim as stated has every walk stop at a leaf that is replaced by a new
  intermediate node. After Insert of alice and bob and Delete of alice the root has an
  empty left slot; the walk of the next Insert ends at that slot, and carol becomes the
  left child of the old root. The tree then has three nodes and still one intermediate.
\<close>

theorem Insert_fills_empty_slot:
  "succeeded (run (NewTree ''d'') 1 [OpInsert ''alice'' [], OpInsert ''bob'' [], OpDelete ''alice''])
   \<and> sub (walk (head (treeOf (run (NewTree ''d'') 1
          [OpInsert ''alice'' [], OpInsert ''bob'' [], OpDelete ''alice'']))))
        (head (treeOf (run (NewTree ''d'') 1
          [OpInsert ''alice'' [], OpInsert ''bob'' [], OpDelete ''alice''])))
       = Null
   \<and> succeeded (run (NewTree ''d'') 1
          [OpInsert ''alice'' [], OpInsert ''bob'' [], OpDelete ''alice'', OpInsert ''carol'' []])
   \<and> map nameKind (elems (head (treeOf (run (NewTree ''d'') 1
          [OpInsert ''alice'' [], OpInsert ''bob'' [], OpDelete ''alice'', OpInsert ''carol'' []]))))
       = [(''intermediate_alice_bob'', ''intermediate''), (''carol'', ''leaf''), (''bob'', ''leaf'')]"
  by code_simp

section \<open>Change tracking\<close>






lemma sub_updateAt_Null: "sub p t = Null \<Longrightarrow> updateAt p f t = t"
  by (induction p f t rule: updateAt.induct) auto





section \<open>Saving and loading a record\<close>

text \<open>
  What holds of the round trip for every element: when the codec round-trips and the
  element has a file path, the save succeeds, and every load of the saved record that
  returns gives back the name, the payload, the kind, both counts and both time stamps.
  The load of a record without child references returns.
\<close>

lemma loadFromDisk_fields:
  assumes codec: "\<forall>d. unmarshal (marshal d) = Some d"
    and path: "filePath e \<noteq> []"
  shows "\<exists>disk'. saveToDisk marshal e l r disk = Inr disk'
           \<and> (\<forall>fuel res. loadFromDisk unmarshal fuel disk' (filePath e) = Some res \<longrightarrow>
                 (\<exists>e' l' r'. res = Inr (Node e' l' r')
                    \<and> name e' = name e \<and> publicKey e' = publicKey e \<and> nodeType e' = nodeType e
                    \<and> leftCount e' = leftCount e \<and> rightCount e' = rightCount e
                    \<and> lastModified e' = lastModified e \<and> lastChecked e' = lastChecked e))
           \<and> (l = Null \<and> r = Null \<longrightarrow>
                 (\<exists>e'. loadFromDisk unmarshal 1 disk' (filePath e) = Some (Inr (Node e' Null Null))))"
proof -
  let ?d = "disk(filePath e \<mapsto> marshal (toElementData e l r))"
  have s: "saveToDisk marshal e l r disk = Inr ?d"
    using path by (simp add: saveToDisk_def saveError_def)
  have f: "\<exists>e' l' r'. res = Inr (Node e' l' r')
                    \<and> name e' = name e \<and> publicKey e' = publicKey e \<and> nodeType e' = nodeType e
                    \<and> leftCount e' = leftCount e \<and> rightCount e' = rightCount e
                    \<and> lastModified e' = lastModified e \<and> lastChecked e' = lastChecked e"
    if "loadFromDisk unmarshal fuel ?d (filePath e) = Some res" for fuel res
  proof (cases fuel)
    case 0
    then show ?thesis using that by simp
  next
    case (Suc n)
    then show ?thesis
      using that codec
      by (auto simp: toElementData_def fromElementData_def split: option.splits if_splits)
  qed
  have g: "\<exists>e'. loadFromDisk unmarshal 1 ?d (filePath e) = Some (Inr (Node e' Null Null))"
    if "l = Null \<and> r = Null"
    using that codec by (simp add: toElementData_def childPath_def)
  show ?thesis using s f g by blast
qed



text \<open>
  A record whose right child reference is its own path is never loaded: every nested
  call reaches the same record again.
\<close>

lemma loadFromDisk_self_reference:
  assumes "disk path = Some data" and "RightChild data = path" and "path \<noteq> []"
  shows "loadFromDisk Some fuel disk path = None"
proof (induction fuel)
  case 0
  then show ?case by simp
next
  case (Suc n)
  then show ?case
    using assms by (simp split: option.splits)
qed

lemma diskOf_saveToDisk:
  "filePath e = p \<Longrightarrow> p \<noteq> [] \<Longrightarrow>
   diskOf (saveToDisk marshal e l r disk) = disk(p \<mapsto> marshal (toElementData e l r))"
  by (auto simp: saveToDisk_def saveError_def diskOf_def)

lemma RightChild_toElementData: "RightChild (toElementData e l r) = childPath r"
  by (simp add: toElementData_def)

text \<open>
  Claim C9 says that, for every node, saving its record and loading it back reproduces
  its fields. File paths are derived from names, and the name of an intermediate node is
  built from two leaf names joined by an underscore. After Insert of \<open>a_b\<close>, \<open>a\<close>, \<open>z\<close>
  and \<open>b_a\<close> the root (made for \<open>a_b\<close> and \<open>a\<close>) and its right child (made for \<open>a\<close> and
  \<open>b_a\<close>) are both named \<open>intermediate_a_b_a\<close> and share one file. The saved record of
  the root names its own file as its right child, and \<open>loadFromDisk\<close> on it does not
  return, whatever else is on the disk and however deep the calls may nest.
\<close>

theorem record_referencing_itself_never_loads:
  "succeeded (run (NewTree ''d'') 1
      [OpInsert ''a_b'' [], OpInsert ''a'' [], OpInsert ''z'' [], OpInsert ''b_a'' []])
   \<and> map_option filePath (elemOf (sub [GoRight] (head (treeOf (run (NewTree ''d'') 1
        [OpInsert ''a_b'' [], OpInsert ''a'' [], OpInsert ''z'' [], OpInsert ''b_a'' []])))))
       = map_option filePath (elemOf (head (treeOf (run (NewTree ''d'') 1
        [OpInsert ''a_b'' [], OpInsert ''a'' [], OpInsert ''z'' [], OpInsert ''b_a'' []]))))
   \<and> loadFromDisk Some fuel
        (diskOf (saveToDisk (\<lambda>d. d)
           (the (elemOf (head (treeOf (run (NewTree ''d'') 1
              [OpInsert ''a_b'' [], OpInsert ''a'' [], OpInsert ''z'' [], OpInsert ''b_a'' []])))))
           (sub [GoLeft] (head (treeOf (run (NewTree ''d'') 1
              [OpInsert ''a_b'' [], OpInsert ''a'' [], OpInsert ''z'' [], OpInsert ''b_a'' []]))))
           (sub [GoRight] (head (treeOf (run (NewTree ''d'') 1
              [OpInsert ''a_b'' [], OpInsert ''a'' [], OpInsert ''z'' [], OpInsert ''b_a'' []]))))
           disk))
        (filePath (the (elemOf (head (treeOf (run (NewTree ''d'') 1
              [OpInsert ''a_b'' [], OpInsert ''a'' [], OpInsert ''z'' [], OpInsert ''b_a'' []]))))))
       = None"
proof -
  let ?t = "treeOf (run (NewTree ''d'') 1
              [OpInsert ''a_b'' [], OpInsert ''a'' [], OpInsert ''z'' [], OpInsert ''b_a'' []])"
  let ?e = "the (elemOf (head ?t))"
  let ?l = "sub [GoLeft] (head ?t)"
  let ?r = "sub [GoRight] (head ?t)"
  let ?p = "''d/intermediate_a_b_a.json''"
  have ok: "succeeded (run (NewTree ''d'') 1
      [OpInsert ''a_b'' [], OpInsert ''a'' [], OpInsert ''z'' [], OpInsert ''b_a'' []])"
    by code_simp
  have same: "map_option filePath (elemOf ?r) = map_option filePath (elemOf (head ?t))"
    by code_simp
  have fp: "filePath ?e = ?p" by code_simp
  have cp: "childPath ?r = ?p" by code_simp
  let ?d = "disk(?p \<mapsto> toElementData ?e ?l ?r)"
  have sv: "diskOf (saveToDisk (\<lambda>d. d) ?e ?l ?r disk) = ?d"
    by (rule diskOf_saveToDisk[OF fp]) simp
  have "loadFromDisk Some fuel ?d ?p = None"
  proof (rule loadFromDisk_self_reference)
    show "?d ?p = Some (toElementData ?e ?l ?r)" by (rule fun_upd_same)
    show "RightChild (toElementData ?e ?l ?r) = ?p" by (simp only: RightChild_toElementData cp)
    show "?p \<noteq> []" by simp
  qed
  then have "loadFromDisk Some fuel (diskOf (saveToDisk (\<lambda>d. d) ?e ?l ?r disk)) (filePath ?e) = None"
    by (simp only: sv fp)
  then show ?thesis using ok same by blast
qed

end
